theory Spec2Isabelle
  imports Main "HOL-Library.AList" "HOL-Library.Sublist"
begin

section \<open>RenumberSequence: an embedding of \<^verbatim>\<open>renumber_seq.py\<close>\<close>

text \<open>
  The script renames the files \<^verbatim>\<open><name>.<number>.<ext>\<close> of a directory so that every
  sequence is numbered consecutively. The embedding follows the source function by
  function: Python strings are \<^typ>\<open>string\<close> (a character stands for a code point below
  256), Python integers are \<^typ>\<open>int\<close>, the two dictionaries are association lists in
  insertion order (the order Python iterates them in), the file system is an association
  list from full paths to nodes, and an exception is the left summand of the result,
  carrying the state at the moment it was raised.
\<close>

subsection \<open>Strings: \<^verbatim>\<open>split\<close>, \<^verbatim>\<open>isnumeric\<close>, \<^verbatim>\<open>int\<close>, \<^verbatim>\<open>str\<close>, \<^verbatim>\<open>zfill\<close>\<close>

definition is_digit :: "char \<Rightarrow> bool" where
  "is_digit c = (48 \<le> (of_char c :: nat) \<and> (of_char c :: nat) \<le> 57)"

text \<open>
  \<^verbatim>\<open>str.isnumeric\<close> accepts every character with a Unicode numeric value. Below code point
  256 these are the ten decimal digits, the superscripts one, two, three and the three
  vulgar fractions; \<^verbatim>\<open>int\<close> accepts the decimal digits only.
\<close>

definition numeric_char :: "char \<Rightarrow> bool" where
  "numeric_char c =
     (is_digit c \<or> c \<in> set [CHR 0xB2, CHR 0xB3, CHR 0xB9, CHR 0xBC, CHR 0xBD, CHR 0xBE])"

definition isnumeric :: "string \<Rightarrow> bool" where
  "isnumeric s = (s \<noteq> [] \<and> list_all numeric_char s)"

definition digit_val :: "char \<Rightarrow> nat" where
  "digit_val c = of_char c - 48"

definition digits_val :: "string \<Rightarrow> nat" where
  "digits_val s = foldl (\<lambda>a c. 10 * a + digit_val c) 0 s"

text \<open>
  \<^verbatim>\<open>int(s)\<close> on a token that passed \<^verbatim>\<open>isnumeric\<close>: the decimal value, or \<^verbatim>\<open>ValueError\<close>
  (here \<^const>\<open>None\<close>) when a character is numeric without being a decimal digit.
\<close>

definition python_int :: "string \<Rightarrow> int option" where
  "python_int s = (if s \<noteq> [] \<and> list_all is_digit s then Some (int (digits_val s)) else None)"

definition digit_char :: "nat \<Rightarrow> char" where
  "digit_char d = char_of (48 + d)"

fun digits :: "nat \<Rightarrow> string" where
  "digits n = (if n < 10 then [digit_char n] else digits (n div 10) @ [digit_char (n mod 10)])"

declare digits.simps [simp del]

definition str_int :: "int \<Rightarrow> string" where
  "str_int i = (if i < 0 then CHR ''-'' # digits (nat (- i)) else digits (nat i))"

definition zfill :: "int \<Rightarrow> string \<Rightarrow> string" where
  "zfill width s =
     (if width \<le> int (length s) then s
      else (let fill = replicate (nat (width - int (length s))) (CHR ''0'') in
            case s of
              [] \<Rightarrow> fill
            | c # cs \<Rightarrow> if c = CHR ''+'' \<or> c = CHR ''-'' then c # fill @ cs else fill @ s))"

text \<open>\<^verbatim>\<open>file.split('.')\<close>: the segments between the dots, at least one segment.\<close>

fun split_dot :: "string \<Rightarrow> string list" where
  "split_dot [] = [[]]"
| "split_dot (c # cs) =
     (if c = CHR ''.'' then [] # split_dot cs
      else (case split_dot cs of [] \<Rightarrow> [[c]] | w # ws \<Rightarrow> (c # w) # ws))"

subsection \<open>The temporary suffix\<close>

record datetime =
  year :: nat
  month :: nat
  day :: nat
  hour :: nat
  minute :: nat
  second :: nat

definition two_digits :: "nat \<Rightarrow> string" where
  "two_digits n = [digit_char (n div 10 mod 10), digit_char (n mod 10)]"

text \<open>\<^verbatim>\<open>DATE = datetime.now().strftime('%y-%m-%d_%H-%M-%S')\<close>\<close>

definition DATE :: "datetime \<Rightarrow> string" where
  "DATE t = two_digits (year t) @ ''-'' @ two_digits (month t) @ ''-'' @ two_digits (day t)
            @ ''_'' @ two_digits (hour t) @ ''-'' @ two_digits (minute t) @ ''-''
            @ two_digits (second t)"

definition TEMP_SUFIX :: "datetime \<Rightarrow> string" where
  "TEMP_SUFIX t = ''_tmp_'' @ DATE t"

subsection \<open>The file system and \<^verbatim>\<open>os.rename\<close>\<close>

text \<open>
  A node is a regular file (with an identifier of its content) or a directory; the file
  system maps full paths to nodes. The paths the script builds are \<^verbatim>\<open>'%s/%s'\<close> strings, so
  the entries of a directory \<open>p\<close> are the keys \<open>p/n\<close> with a non-empty, slash-free \<open>n\<close>.
\<close>

datatype node = RegFile nat | Directory

type_synonym filesystem = "(string \<times> node) list"

definition os_path_exists :: "filesystem \<Rightarrow> string \<Rightarrow> bool" where
  "os_path_exists fs p = (map_of fs p \<noteq> None)"

definition os_path_isdir :: "filesystem \<Rightarrow> string \<Rightarrow> bool" where
  "os_path_isdir fs p = (map_of fs p = Some Directory)"

definition os_path_isfile :: "filesystem \<Rightarrow> string \<Rightarrow> bool" where
  "os_path_isfile fs p = (case map_of fs p of Some (RegFile c) \<Rightarrow> True | _ \<Rightarrow> False)"

definition child_name :: "string \<Rightarrow> string \<Rightarrow> string option" where
  "child_name path k =
     (let n = length path + 1 in
      if take n k = path @ ''/'' \<and> drop n k \<noteq> [] \<and> CHR ''/'' \<notin> set (drop n k)
      then Some (drop n k) else None)"

definition dir_entries :: "filesystem \<Rightarrow> string \<Rightarrow> string list" where
  "dir_entries fs path = List.map_filter (child_name path) (map fst fs)"

datatype exn =
    FileNotFoundError string string
  | PermissionError string string
  | IsADirectoryError string string
  | NotADirectoryError string string
  | DirectoryNotEmpty string string
  | ValueError string

text \<open>
  The environment of a run: the clock read when the module is loaded, the renames that
  fail for an outside reason (permissions, a full disk), given as a predicate on source
  and destination so that a failure can be simulated at any rename, and the directories
  whose listing is refused.
\<close>

record env =
  now :: datetime
  denied :: "string \<Rightarrow> string \<Rightarrow> bool"
  unreadable :: "string \<Rightarrow> bool"

text \<open>
  \<^verbatim>\<open>os.listdir(path)\<close>: raises when the path is missing, is not a directory or may not be
  read, and returns the entries of the directory otherwise.
\<close>

definition os_listdir :: "env \<Rightarrow> filesystem \<Rightarrow> string \<Rightarrow> exn + string list" where
  "os_listdir e fs path =
     (case map_of fs path of
        None \<Rightarrow> Inl (FileNotFoundError path [])
      | Some (RegFile c) \<Rightarrow> Inl (NotADirectoryError path [])
      | Some Directory \<Rightarrow>
          if unreadable e path then Inl (PermissionError path [])
          else Inr (dir_entries fs path))"

definition move_entry :: "string \<Rightarrow> string \<Rightarrow> string \<times> node \<Rightarrow> string \<times> node" where
  "move_entry src dst e =
     (if fst e = src then (dst, snd e)
      else if take (length src + 1) (fst e) = src @ ''/''
           then (dst @ drop (length src) (fst e), snd e)
      else e)"

text \<open>
  \<^verbatim>\<open>os.rename(src, dst)\<close> with the behaviour Python documents for Unix: a missing source
  raises; a regular file replaces an existing regular file silently; a file cannot
  replace a directory nor a directory a file; a directory replaces an empty directory
  only.
\<close>

definition os_rename :: "env \<Rightarrow> string \<Rightarrow> string \<Rightarrow> filesystem \<Rightarrow> exn + filesystem" where
  "os_rename e src dst fs =
     (case map_of fs src of
        None \<Rightarrow> Inl (FileNotFoundError src dst)
      | Some n \<Rightarrow>
          if denied e src dst then Inl (PermissionError src dst)
          else if src = dst then Inr fs
          else (case n of
                  RegFile c \<Rightarrow>
                    (if map_of fs dst = Some Directory then Inl (IsADirectoryError src dst)
                     else Inr ((dst, n) # AList.delete src (AList.delete dst fs)))
                | Directory \<Rightarrow>
                    (case map_of fs dst of
                       None \<Rightarrow> Inr (map (move_entry src dst) fs)
                     | Some (RegFile c) \<Rightarrow> Inl (NotADirectoryError src dst)
                     | Some Directory \<Rightarrow>
                         if dir_entries fs dst \<noteq> [] then Inl (DirectoryNotEmpty src dst)
                         else Inr (map (move_entry src dst) (AList.delete dst fs)))))"

subsection \<open>The state of a run\<close>

datatype log_entry = Warning string | Error string | ErrorExc exn

text \<open>
  \<open>fs\<close> and \<open>logs\<close> are what the script acts on; \<open>renaming_dict\<close> and \<open>seqs_data_dict\<close> are
  the two local dictionaries of \<^verbatim>\<open>renumber_files\<close>, created empty by every call; \<open>trace\<close>
  records every call of \<^verbatim>\<open>os.rename\<close> as source, destination and whether the destination
  existed when the call was made.
\<close>

record state =
  fs :: filesystem
  logs :: "log_entry list"
  trace :: "(string \<times> string \<times> bool) list"
  renaming_dict :: "(string \<times> string) list"
  seqs_data_dict :: "((string \<times> string) \<times> string list) list"

type_synonym result = "(exn \<times> state) + state"

definition rename_call :: "env \<Rightarrow> string \<Rightarrow> string \<Rightarrow> state \<Rightarrow> result" where
  "rename_call e src dst s =
     (let s' = s\<lparr>trace := trace s @ [(src, dst, os_path_exists (fs s) dst)]\<rparr> in
      case os_rename e src dst (fs s) of
        Inl x \<Rightarrow> Inl (x, s')
      | Inr fs' \<Rightarrow> Inr (s'\<lparr>fs := fs'\<rparr>))"

definition logger_warning :: "string \<Rightarrow> state \<Rightarrow> state" where
  "logger_warning msg s = s\<lparr>logs := logs s @ [Warning msg]\<rparr>"

definition logger_error :: "string \<Rightarrow> state \<Rightarrow> state" where
  "logger_error msg s = s\<lparr>logs := logs s @ [Error msg]\<rparr>"

definition logger_error_exc :: "exn \<Rightarrow> state \<Rightarrow> state" where
  "logger_error_exc x s = s\<lparr>logs := logs s @ [ErrorExc x]\<rparr>"

subsection \<open>\<^verbatim>\<open>restore_original_names\<close>\<close>

fun restore_original_names :: "env \<Rightarrow> (string \<times> string) list \<Rightarrow> state \<Rightarrow> result" where
  "restore_original_names e [] s = Inr s"
| "restore_original_names e ((org_name, curr_name) # items) s =
     (case rename_call e curr_name org_name s of
        Inl x \<Rightarrow> Inl x
      | Inr s' \<Rightarrow> restore_original_names e items s')"

subsection \<open>\<^verbatim>\<open>renumber_files\<close>\<close>

definition tmp_path :: "env \<Rightarrow> string \<Rightarrow> string \<Rightarrow> string \<Rightarrow> string \<Rightarrow> string" where
  "tmp_path e path name number ext =
     path @ ''/'' @ name @ ''.'' @ (number @ TEMP_SUFIX (now e)) @ ''.'' @ ext"

definition new_path :: "string \<Rightarrow> string \<Rightarrow> int \<Rightarrow> int \<Rightarrow> string \<Rightarrow> string" where
  "new_path path name frame_number len ext =
     path @ ''/'' @ name @ ''.'' @ zfill len (str_int frame_number) @ ''.'' @ ext"

text \<open>The body of the first loop (lines 140 to 169), for one entry of the listing.\<close>

definition stage_file :: "env \<Rightarrow> string \<Rightarrow> string \<Rightarrow> state \<Rightarrow> result" where
  "stage_file e path file s =
     (let full_path = path @ ''/'' @ file in
      if \<not> os_path_isfile (fs s) full_path then Inr s
      else (let data = split_dot file in
        if length data \<noteq> 3 then Inr s
        else (let name = data ! 0; number = data ! 1; ext = data ! 2 in
          if \<not> isnumeric number then Inr s
          else (let s1 = s\<lparr>seqs_data_dict :=
                            (case map_of (seqs_data_dict s) (name, ext) of
                               None \<Rightarrow> AList.update (name, ext) [number] (seqs_data_dict s)
                             | Some l \<Rightarrow>
                                 AList.update (name, ext) (l @ [number]) (seqs_data_dict s))\<rparr>
                in case rename_call e full_path (tmp_path e path name number ext) s1 of
                     Inl x \<Rightarrow> Inl x
                   | Inr s2 \<Rightarrow>
                       Inr (s2\<lparr>renaming_dict :=
                                 AList.update full_path (tmp_path e path name number ext)
                                   (renaming_dict s2)\<rparr>)))))"

fun stage_files :: "env \<Rightarrow> string \<Rightarrow> string list \<Rightarrow> state \<Rightarrow> result" where
  "stage_files e path [] s = Inr s"
| "stage_files e path (file # files) s =
     (case stage_file e path file s of
        Inl x \<Rightarrow> Inl x
      | Inr s' \<Rightarrow> stage_files e path files s')"

text \<open>The inner loop of the second phase (lines 177 to 185).\<close>

fun number_frames ::
  "env \<Rightarrow> string \<Rightarrow> int \<Rightarrow> string \<Rightarrow> string \<Rightarrow> string list \<Rightarrow> int \<Rightarrow> state \<Rightarrow> result" where
  "number_frames e path len name ext [] frame_number s = Inr s"
| "number_frames e path len name ext (number # img_list) frame_number s =
     (case rename_call e (tmp_path e path name number ext)
                         (new_path path name frame_number len ext) s of
        Inl x \<Rightarrow> Inl x
      | Inr s' \<Rightarrow>
          number_frames e path len name ext img_list (frame_number + 1)
            (s'\<lparr>renaming_dict :=
                  AList.update (tmp_path e path name number ext)
                    (new_path path name frame_number len ext) (renaming_dict s')\<rparr>))"

text \<open>
  The body of the outer loop (lines 173 to 185) for one key. \<^verbatim>\<open>sort(key=int)\<close> computes
  the keys first and raises \<^verbatim>\<open>ValueError\<close> at the first token \<^verbatim>\<open>int\<close> rejects; otherwise
  it sorts the list held by the dictionary in place, stably.
\<close>

definition renumber_seq ::
  "env \<Rightarrow> string \<Rightarrow> int \<Rightarrow> int \<Rightarrow> string \<times> string \<Rightarrow> state \<Rightarrow> result" where
  "renumber_seq e path start len key s =
     (let img_list = (case map_of (seqs_data_dict s) key of None \<Rightarrow> [] | Some l \<Rightarrow> l) in
      case find (\<lambda>number. python_int number = None) img_list of
        Some number \<Rightarrow> Inl (ValueError number, s)
      | None \<Rightarrow>
          (let sorted_list = sort_key (\<lambda>number. the (python_int number)) img_list;
               s1 = s\<lparr>seqs_data_dict := AList.update key sorted_list (seqs_data_dict s)\<rparr>
           in number_frames e path len (fst key) (snd key) sorted_list start s1))"

fun renumber_seqs ::
  "env \<Rightarrow> string \<Rightarrow> int \<Rightarrow> int \<Rightarrow> (string \<times> string) list \<Rightarrow> state \<Rightarrow> result" where
  "renumber_seqs e path start len [] s = Inr s"
| "renumber_seqs e path start len (key # keys) s =
     (case renumber_seq e path start len key s of
        Inl x \<Rightarrow> Inl x
      | Inr s' \<Rightarrow> renumber_seqs e path start len keys s')"

text \<open>The \<^verbatim>\<open>try\<close> block (lines 139 to 185): both phases.\<close>

definition try_block :: "env \<Rightarrow> string \<Rightarrow> int \<Rightarrow> int \<Rightarrow> string list \<Rightarrow> state \<Rightarrow> result" where
  "try_block e path start len files s =
     (case stage_files e path files s of
        Inl x \<Rightarrow> Inl x
      | Inr s1 \<Rightarrow> renumber_seqs e path start len (map fst (seqs_data_dict s1)) s1)"

definition quoted :: "string \<Rightarrow> string" where
  "quoted p = [CHR 0x22] @ p @ [CHR 0x22]"

text \<open>
  \<^verbatim>\<open>renumber_files\<close>. The listing is read at line 124, before the \<^verbatim>\<open>try\<close> block: an
  exception it raises leaves the function as it is, nothing logged. An exception of the
  \<^verbatim>\<open>try\<close> block is logged and the rollback is called from the handler, where nothing
  catches what the rollback raises.
\<close>

definition renumber_files :: "env \<Rightarrow> string \<Rightarrow> int \<Rightarrow> int \<Rightarrow> state \<Rightarrow> result" where
  "renumber_files e path start len s =
     (if \<not> os_path_exists (fs s) path
      then Inr (logger_warning (''Path '' @ quoted path @ '' does not exist. Skipping path...'') s)
      else if \<not> os_path_isdir (fs s) path
      then Inr (logger_warning
                  (''Path '' @ quoted path @ '' is not a directory. Skipping path...'') s)
      else (case os_listdir e (fs s) path of
              Inl x \<Rightarrow> Inl (x, s)
            | Inr files \<Rightarrow>
                if files = []
                then Inr (logger_warning
                            (''Path '' @ quoted path @ '' is empty. Skipping path...'') s)
                else (case try_block e path start len files
                             (s\<lparr>renaming_dict := [], seqs_data_dict := []\<rparr>) of
                        Inr s' \<Rightarrow> Inr s'
                      | Inl (x, s') \<Rightarrow>
                          restore_original_names e (renaming_dict s')
                            (logger_error ''Skipping directory...''
                              (logger_error_exc x
                                (logger_error (''Error found renaming files on '' @ path) s'))))))"

subsection \<open>\<^verbatim>\<open>main\<close>\<close>

fun run_paths :: "env \<Rightarrow> string list \<Rightarrow> int \<Rightarrow> int \<Rightarrow> state \<Rightarrow> result" where
  "run_paths e [] start len s = Inr s"
| "run_paths e (path # paths) start len s =
     (case renumber_files e path start len s of
        Inl x \<Rightarrow> Inl x
      | Inr s' \<Rightarrow> run_paths e paths start len s')"

text \<open>
  \<^verbatim>\<open>main\<close> with the parsed options and arguments as inputs; \<open>cwd\<close> is \<^verbatim>\<open>os.getcwd()\<close>.
\<close>

definition main :: "env \<Rightarrow> string list \<Rightarrow> string \<Rightarrow> int \<Rightarrow> int \<Rightarrow> state \<Rightarrow> result" where
  "main e args cwd start len s =
     run_paths e (if args = [] then [cwd] else args) start len s"

subsection \<open>Notions used to state the properties\<close>

text \<open>
  The value of a padded frame field: a leading minus sign, then decimal digits with any
  number of leading zeros.
\<close>

definition padded_val :: "string \<Rightarrow> int" where
  "padded_val s =
     (case s of
        [] \<Rightarrow> 0
      | c # cs \<Rightarrow> if c = CHR ''-'' then - int (digits_val cs) else int (digits_val s))"

text \<open>
  The test the first loop applies to a name (lines 146 to 156), and to an entry of the
  directory (line 143 as well).
\<close>

definition seq_parts :: "string \<Rightarrow> (string \<times> string \<times> string) option" where
  "seq_parts file =
     (let data = split_dot file in
      if length data = 3 \<and> isnumeric (data ! 1) then Some (data ! 0, data ! 1, data ! 2)
      else None)"

definition is_seq_file :: "filesystem \<Rightarrow> string \<Rightarrow> string \<Rightarrow> bool" where
  "is_seq_file f path file = (os_path_isfile f (path @ ''/'' @ file) \<and> seq_parts file \<noteq> None)"

subsection \<open>Concrete runs\<close>

definition clock :: datetime where
  "clock = \<lparr>year = 2022, month = 2, day = 5, hour = 10, minute = 0, second = 0\<rparr>"

definition no_faults :: env where
  "no_faults = \<lparr>now = clock, denied = (\<lambda>src dst. False), unreadable = (\<lambda>p. False)\<rparr>"

definition fail_at :: "string \<Rightarrow> env" where
  "fail_at p = \<lparr>now = clock, denied = (\<lambda>src dst. dst = p), unreadable = (\<lambda>p. False)\<rparr>"

definition on_disk :: "filesystem \<Rightarrow> state" where
  "on_disk f = \<lparr>fs = f, logs = [], trace = [], renaming_dict = [], seqs_data_dict = []\<rparr>"

text \<open>
  The invariant the specification states for the rename map: every value exists on disk
  and no key does.
\<close>

definition rename_map_consistent :: "state \<Rightarrow> bool" where
  "rename_map_consistent s =
     list_all (\<lambda>(k, v). os_path_exists (fs s) v \<and> \<not> os_path_exists (fs s) k) (renaming_dict s)"

definition two_dirs :: filesystem where
  "two_dirs = [(''d'', Directory), (''d/a.1.png'', RegFile 1), (''d/a.2.png'', RegFile 2),
               (''e'', Directory), (''e/b.5.png'', RegFile 3)]"

text \<open>The name built from a base name, a frame field and an extension.\<close>

definition seq_name :: "string \<Rightarrow> string \<Rightarrow> string \<Rightarrow> string" where
  "seq_name n t x = n @ ''.'' @ t @ ''.'' @ x"

text \<open>
  A plan is a list of renames, each a source and a destination. Both phases and the
  rollback carry out a plan: \<open>run_plan\<close> performs the renames in order, recording each in
  the rename map as the phases do, and stops at the first that fails. \<open>moved m ps\<close> is the
  file system \<open>m\<close> after the renames \<open>ps\<close>, \<open>trace_of m ps\<close> the calls they leave in the trace,
  \<open>recorded d ps\<close> the rename map after them, and a plan is \<open>separate\<close> when no path occurs
  twice in it.
\<close>

fun run_plan :: "env \<Rightarrow> (string \<times> string) list \<Rightarrow> state \<Rightarrow> result" where
  "run_plan e [] s = Inr s"
| "run_plan e ((a, b) # ps) s =
     (case rename_call e a b s of
        Inl z \<Rightarrow> Inl z
      | Inr s' \<Rightarrow> run_plan e ps (s'\<lparr>renaming_dict := AList.update a b (renaming_dict s')\<rparr>))"

definition shift :: "(string \<rightharpoonup> node) \<Rightarrow> string \<Rightarrow> string \<Rightarrow> (string \<rightharpoonup> node)" where
  "shift m a b = m(a := None, b := m a)"

fun moved :: "(string \<rightharpoonup> node) \<Rightarrow> (string \<times> string) list \<Rightarrow> (string \<rightharpoonup> node)" where
  "moved m [] = m"
| "moved m (p # ps) = moved (shift m (fst p) (snd p)) ps"

fun trace_of ::
  "(string \<rightharpoonup> node) \<Rightarrow> (string \<times> string) list \<Rightarrow> (string \<times> string \<times> bool) list" where
  "trace_of m [] = []"
| "trace_of m (p # ps) =
     (fst p, snd p, m (snd p) \<noteq> None) # trace_of (shift m (fst p) (snd p)) ps"

definition recorded :: "(string \<times> string) list \<Rightarrow> (string \<times> string) list \<Rightarrow> (string \<times> string) list" where
  "recorded d ps = foldl (\<lambda>d p. AList.update (fst p) (snd p) d) d ps"

definition separate :: "(string \<times> string) list \<Rightarrow> bool" where
  "separate ps =
     (distinct (map fst ps) \<and> distinct (map snd ps) \<and> set (map fst ps) \<inter> set (map snd ps) = {})"

text \<open>
  Auxiliary notions for relating the loops to plans: a result with one dictionary replaced, the state a result carries, the plan of the inner loop of the second phase, the bucket of a key, and the plan and the buckets of the first phase.
\<close>

definition with_seqs :: "((string \<times> string) \<times> string list) list \<Rightarrow> result \<Rightarrow> result" where
  "with_seqs c r =
     (case r of
        Inl z \<Rightarrow> Inl (fst z, (snd z)\<lparr>seqs_data_dict := c\<rparr>)
      | Inr s \<Rightarrow> Inr (s\<lparr>seqs_data_dict := c\<rparr>))"

definition with_dict :: "(string \<times> string) list \<Rightarrow> result \<Rightarrow> result" where
  "with_dict d r =
     (case r of
        Inl z \<Rightarrow> Inl (fst z, (snd z)\<lparr>renaming_dict := d\<rparr>)
      | Inr s \<Rightarrow> Inr (s\<lparr>renaming_dict := d\<rparr>))"

definition state_of :: "result \<Rightarrow> state" where
  "state_of r = (case r of Inl z \<Rightarrow> snd z | Inr s \<Rightarrow> s)"

fun frame_pairs ::
  "env \<Rightarrow> string \<Rightarrow> int \<Rightarrow> string \<Rightarrow> string \<Rightarrow> string list \<Rightarrow> int \<Rightarrow> (string \<times> string) list" where
  "frame_pairs e path len name ext [] k = []"
| "frame_pairs e path len name ext (t # ts) k =
     (tmp_path e path name t ext, new_path path name k len ext)
       # frame_pairs e path len name ext ts (k + 1)"

definition bucket :: "((string \<times> string) \<times> string list) list \<Rightarrow> string \<times> string \<Rightarrow> string list" where
  "bucket d key = (case map_of d key of None \<Rightarrow> [] | Some l \<Rightarrow> l)"

definition bucket_add ::
  "string \<times> string \<Rightarrow> string \<Rightarrow> ((string \<times> string) \<times> string list) list
   \<Rightarrow> ((string \<times> string) \<times> string list) list" where
  "bucket_add key t d =
     (case map_of d key of
        None \<Rightarrow> AList.update key [t] d
      | Some l \<Rightarrow> AList.update key (l @ [t]) d)"

definition stage_pair :: "env \<Rightarrow> string \<Rightarrow> string \<Rightarrow> string \<times> string" where
  "stage_pair e path file =
     (path @ ''/'' @ file,
      case seq_parts file of
        None \<Rightarrow> []
      | Some p \<Rightarrow> tmp_path e path (fst p) (fst (snd p)) (snd (snd p)))"

definition staged :: "filesystem \<Rightarrow> string \<Rightarrow> string list \<Rightarrow> string list" where
  "staged f path files = filter (is_seq_file f path) files"

definition staging :: "env \<Rightarrow> string \<Rightarrow> filesystem \<Rightarrow> string list \<Rightarrow> (string \<times> string) list" where
  "staging e path f files = map (stage_pair e path) (staged f path files)"

definition group_file ::
  "((string \<times> string) \<times> string list) list \<Rightarrow> string \<Rightarrow> ((string \<times> string) \<times> string list) list" where
  "group_file d file =
     (case seq_parts file of
        None \<Rightarrow> d
      | Some p \<Rightarrow> bucket_add (fst p, snd (snd p)) (fst (snd p)) d)"

definition grouped ::
  "((string \<times> string) \<times> string list) list \<Rightarrow> string list \<Rightarrow> ((string \<times> string) \<times> string list) list" where
  "grouped d files = foldl group_file d files"

text \<open>
  The frame tokens a list of names contributes to the bucket of a key.
\<close>

definition tokens_of :: "string \<times> string \<Rightarrow> string list \<Rightarrow> string list" where
  "tokens_of key files =
     concat (map (\<lambda>file. case seq_parts file of
                            None \<Rightarrow> []
                          | Some p \<Rightarrow> if (fst p, snd (snd p)) = key then [fst (snd p)] else [])
                 files)"

text \<open>
  The plan of the second phase: the tokens of every bucket in the order of their integer values, numbered from the start number.
\<close>

definition int_key :: "string \<Rightarrow> int" where
  "int_key number = the (python_int number)"

definition seq_plan ::
  "env \<Rightarrow> string \<Rightarrow> int \<Rightarrow> int \<Rightarrow> ((string \<times> string) \<times> string list) list
   \<Rightarrow> string \<times> string \<Rightarrow> (string \<times> string) list" where
  "seq_plan e path start len d key =
     frame_pairs e path len (fst key) (snd key) (sort_key int_key (bucket d key)) start"

definition numbering ::
  "env \<Rightarrow> string \<Rightarrow> int \<Rightarrow> int \<Rightarrow> ((string \<times> string) \<times> string list) list
   \<Rightarrow> (string \<times> string) list \<Rightarrow> (string \<times> string) list" where
  "numbering e path start len d keys = concat (map (seq_plan e path start len d) keys)"

text \<open>
  The buckets the first phase builds from a listing, and the plan the second phase derives from them.
\<close>

definition buckets :: "filesystem \<Rightarrow> string \<Rightarrow> string list \<Rightarrow> ((string \<times> string) \<times> string list) list" where
  "buckets f path files = grouped [] (staged f path files)"

definition final_plan ::
  "env \<Rightarrow> string \<Rightarrow> int \<Rightarrow> int \<Rightarrow> filesystem \<Rightarrow> string list \<Rightarrow> (string \<times> string) list" where
  "final_plan e path start len f files =
     numbering e path start len (buckets f path files) (map fst (buckets f path files))"

definition three_frames :: filesystem where
  "three_frames = [(''d'', Directory), (''d/a.9.png'', RegFile 9), (''d/a.10.png'', RegFile 10),
                   (''d/a.2.png'', RegFile 2)]"

definition two_sequences :: filesystem where
  "two_sequences = [(''d'', Directory), (''d/b.7.jpg'', RegFile 7), (''d/a.9.png'', RegFile 9),
                    (''d/a.10.png'', RegFile 10), (''d/a.2.png'', RegFile 2)]"

text \<open>
  A directory in which a regular file already bears the temporary name of a sequence file.
\<close>

definition temp_collision :: filesystem where
  "temp_collision = [(''d'', Directory), (''d/a.5.png'', RegFile 1),
                     (''d/a.5_tmp_22-02-05_10-00-00.png'', RegFile 2), (''d/b.1.png'', RegFile 3)]"

text \<open>
  Environments in which several renames fail or a directory may not be read, the entries the handler of \<^verbatim>\<open>renumber_files\<close> logs, and a tree without sequence files.
\<close>

definition fail_at_all :: "string list \<Rightarrow> env" where
  "fail_at_all ps =
     \<lparr>now = clock, denied = (\<lambda>src dst. dst \<in> set ps), unreadable = (\<lambda>p. False)\<rparr>"

definition locked :: "string \<Rightarrow> env" where
  "locked p = \<lparr>now = clock, denied = (\<lambda>src dst. False), unreadable = (\<lambda>q. q = p)\<rparr>"

definition handler_logs :: "string \<Rightarrow> exn \<Rightarrow> log_entry list" where
  "handler_logs path x =
     [Error (''Error found renaming files on '' @ path), ErrorExc x, Error ''Skipping directory...'']"

definition no_sequences :: filesystem where
  "no_sequences =
     [(''d'', Directory), (''d/readme.txt'', RegFile 1), (''d/a.x.png'', RegFile 2),
      (''d/a.1.png'', Directory), (''e'', Directory), (''e/b.5.png'', RegFile 3)]"

text \<open>
  Directories for the destinations of renames: a subdirectory named like a frame, a file named like a negative frame, two frames listed in descending order, two tokens of equal value; and the condition that no name of a listing embeds the temporary suffix.
\<close>

definition frame_named_directory :: filesystem where
  "frame_named_directory =
     [(''d'', Directory), (''d/a.5.png'', RegFile 5), (''d/a.01.png'', Directory)]"

definition dashed_frame :: filesystem where
  "dashed_frame = [(''d'', Directory), (''d/a.5.png'', RegFile 5), (''d/a.-1.png'', RegFile 7)]"

definition two_frames_down :: filesystem where
  "two_frames_down = [(''d'', Directory), (''d/a.2.png'', RegFile 2), (''d/a.1.png'', RegFile 1)]"

definition equal_values :: filesystem where
  "equal_values = [(''d'', Directory), (''d/a.1.png'', RegFile 1), (''d/a.01.png'', RegFile 2)]"

definition no_suffix :: "env \<Rightarrow> string list \<Rightarrow> bool" where
  "no_suffix e files = list_all (\<lambda>entry. \<not> sublist (TEMP_SUFIX (now e)) entry) files"

section \<open>Properties\<close>

subsection \<open>Digits and padding\<close>

lemma digit_char_simps:
  "digit_char 0 = CHR ''0''" "digit_char 1 = CHR ''1''" "digit_char 2 = CHR ''2''"
  "digit_char 3 = CHR ''3''" "digit_char 4 = CHR ''4''" "digit_char 5 = CHR ''5''"
  "digit_char 6 = CHR ''6''" "digit_char 7 = CHR ''7''" "digit_char 8 = CHR ''8''"
  "digit_char 9 = CHR ''9''" "digit_char (Suc 0) = CHR ''1''"
  by code_simp+

lemma of_char_digit_char: "d < 10 \<Longrightarrow> (of_char (digit_char d) :: nat) = 48 + d"
  by (simp add: digit_char_def)

lemma is_digit_digit_char: "d < 10 \<Longrightarrow> is_digit (digit_char d)"
  by (simp add: is_digit_def of_char_digit_char)

lemma digit_val_digit_char: "d < 10 \<Longrightarrow> digit_val (digit_char d) = d"
  by (simp add: digit_val_def of_char_digit_char)

lemma digits_all_digit: "list_all is_digit (digits n)"
  by (induction n rule: digits.induct) (subst digits.simps, simp add: is_digit_digit_char)

lemma digits_nonempty: "digits n \<noteq> []"
  by (subst digits.simps) simp

lemma digits_val_snoc: "digits_val (s @ [c]) = 10 * digits_val s + digit_val c"
  by (simp add: digits_val_def)

lemma digits_val_digits: "digits_val (digits n) = n"
proof (induction n rule: digits.induct)
  case (1 n)
  show ?case
  proof (cases "n < 10")
    case True
    then show ?thesis by (subst digits.simps) (simp add: digits_val_def digit_val_digit_char)
  next
    case False
    with 1 show ?thesis
      by (subst digits.simps) (simp add: digits_val_snoc digit_val_digit_char)
  qed
qed

lemma digits_val_zeros: "digits_val (replicate k (CHR ''0'') @ s) = digits_val s"
proof -
  have "foldl (\<lambda>a c. 10 * a + digit_val c) 0 (replicate k (CHR ''0'')) = 0"
    by (induction k) (simp_all add: digit_val_def)
  then show ?thesis by (simp add: digits_val_def)
qed

lemma is_digit_not_special:
  "is_digit c \<Longrightarrow>
   c \<noteq> CHR ''-'' \<and> c \<noteq> CHR ''+'' \<and> c \<noteq> CHR ''.'' \<and> c \<noteq> CHR ''/'' \<and> c \<noteq> CHR ''_''"
  by (auto simp: is_digit_def)

lemma numeric_char_not_special:
  "numeric_char c \<Longrightarrow> c \<noteq> CHR ''-'' \<and> c \<noteq> CHR ''.'' \<and> c \<noteq> CHR ''/'' \<and> c \<noteq> CHR ''_''"
  by (auto simp: numeric_char_def is_digit_def)

lemma hd_digits: "\<exists>c cs. digits n = c # cs \<and> is_digit c"
  using digits_all_digit [of n] digits_nonempty [of n] by (cases "digits n") auto

lemma zfill_nonneg:
  assumes "0 \<le> n"
  shows "zfill w (str_int n) =
         replicate (nat (w - int (length (digits (nat n))))) (CHR ''0'') @ digits (nat n)"
proof -
  obtain c cs where d: "digits (nat n) = c # cs" "is_digit c" using hd_digits by blast
  with assms show ?thesis
    using is_digit_not_special [of c] by (simp add: zfill_def str_int_def Let_def)
qed

lemma zfill_neg:
  assumes "n < 0"
  shows "zfill w (str_int n) =
         CHR ''-'' # replicate (nat (w - 1 - int (length (digits (nat (- n)))))) (CHR ''0'')
           @ digits (nat (- n))"
  using assms by (auto simp: zfill_def str_int_def Let_def algebra_simps)

lemma padded_val_zfill: "padded_val (zfill w (str_int n)) = n"
proof (cases "0 \<le> n")
  case True
  obtain c cs where d: "digits (nat n) = c # cs" "is_digit c" using hd_digits by blast
  have "digits_val (zfill w (str_int n)) = nat n"
    by (simp add: zfill_nonneg [OF True] digits_val_zeros digits_val_digits)
  moreover have "\<exists>c' cs'. zfill w (str_int n) = c' # cs' \<and> c' \<noteq> CHR ''-''"
    using d is_digit_not_special [of c]
    by (cases "nat (w - int (length (digits (nat n))))") (auto simp: zfill_nonneg [OF True])
  ultimately show ?thesis using True by (auto simp: padded_val_def)
next
  case False
  then have "n < 0" by simp
  then show ?thesis
    by (simp add: zfill_neg padded_val_def digits_val_zeros digits_val_digits)
qed

lemma zfill_str_inj: "zfill w (str_int a) = zfill w (str_int b) \<Longrightarrow> a = b"
  by (metis padded_val_zfill)

lemma zfill_chars: "c \<in> set (zfill w (str_int n)) \<Longrightarrow> is_digit c \<or> c = CHR ''-''"
proof (cases "0 \<le> n")
  case True
  assume "c \<in> set (zfill w (str_int n))"
  then show ?thesis using digits_all_digit [of "nat n"]
    by (auto simp: zfill_nonneg [OF True] list_all_iff is_digit_def)
next
  case False
  then have n: "n < 0" by simp
  assume "c \<in> set (zfill w (str_int n))"
  then show ?thesis using digits_all_digit [of "nat (- n)"]
    by (auto simp: zfill_neg [OF n] list_all_iff is_digit_def)
qed

lemma length_zfill: "int (length (zfill w s)) = max w (int (length s))"
  by (auto simp: zfill_def Let_def split: list.splits)

subsection \<open>Evaluating a run\<close>

lemmas run_defs = renumber_files_def try_block_def stage_file_def renumber_seq_def rename_call_def os_rename_def
  os_path_exists_def os_path_isdir_def os_path_isfile_def os_listdir_def dir_entries_def child_name_def List.map_filter_def
  tmp_path_def new_path_def TEMP_SUFIX_def DATE_def two_digits_def digit_char_simps zfill_def str_int_def digits.simps
  isnumeric_def numeric_char_def is_digit_def python_int_def digits_val_def digit_val_def
  logger_warning_def logger_error_def logger_error_exc_def quoted_def Let_def
  clock_def no_faults_def fail_at_def on_disk_def seq_parts_def is_seq_file_def

subsection \<open>Reading the listing\<close>

lemma os_listdir_Inr:
  "os_listdir e f path = Inr files \<longleftrightarrow>
   os_path_isdir f path \<and> \<not> unreadable e path \<and> files = dir_entries f path"
  by (auto simp: os_listdir_def os_path_isdir_def split: option.splits node.splits)

lemma os_listdir_Inl:
  "os_path_isdir f path \<Longrightarrow>
   os_listdir e f path = Inl x \<longleftrightarrow> unreadable e path \<and> x = PermissionError path []"
  by (auto simp: os_listdir_def os_path_isdir_def)

lemma isdir_exists: "os_path_isdir f path \<Longrightarrow> os_path_exists f path"
  by (simp add: os_path_isdir_def os_path_exists_def)

lemma renumber_files_listed:
  assumes "os_listdir e (fs s) path = Inr files"
  shows "renumber_files e path start len s =
           (if files = []
            then Inr (logger_warning (''Path '' @ quoted path @ '' is empty. Skipping path...'') s)
            else (case try_block e path start len files
                         (s\<lparr>renaming_dict := [], seqs_data_dict := []\<rparr>) of
                    Inr s' \<Rightarrow> Inr s'
                  | Inl (x, s') \<Rightarrow>
                      restore_original_names e (renaming_dict s')
                        (logger_error ''Skipping directory...''
                          (logger_error_exc x
                            (logger_error (''Error found renaming files on '' @ path) s')))))"
proof -
  from assms have "os_path_isdir (fs s) path" by (simp add: os_listdir_Inr)
  with isdir_exists [OF this] assms show ?thesis by (simp add: renumber_files_def)
qed

subsection \<open>Claim C1: rollback after a failure in the second phase\<close>

text \<open>
  C1. The directory \<^verbatim>\<open>d\<close> holds \<^verbatim>\<open>a.1.png\<close> and \<^verbatim>\<open>a.2.png\<close>, and the rename of the second
  file of the second phase fails. The rollback then asks for the temporary name of the
  first file, which the second phase has already renamed: \<^verbatim>\<open>FileNotFoundError\<close> leaves
  \<^verbatim>\<open>renumber_files\<close>, the first file keeps its new name \<^verbatim>\<open>a.01.png\<close> and the second its
  temporary name. Neither has its original name again.
\<close>

theorem C1_rollback_after_a_phase2_failure:
  "renumber_files (fail_at ''d/a.02.png'') ''d'' 1 2
     (on_disk [(''d'', Directory), (''d/a.1.png'', RegFile 1), (''d/a.2.png'', RegFile 2)])
   = Inl (FileNotFoundError ''d/a.1_tmp_22-02-05_10-00-00.png'' ''d/a.1.png'',
      \<lparr>fs = [(''d/a.01.png'', RegFile 1),
             (''d/a.2_tmp_22-02-05_10-00-00.png'', RegFile 2),
             (''d'', Directory)],
         logs =
           [Error ''Error found renaming files on d'',
            ErrorExc
             (PermissionError ''d/a.2_tmp_22-02-05_10-00-00.png''
               ''d/a.02.png''),
            Error ''Skipping directory...''],
         trace =
           [(''d/a.1.png'', ''d/a.1_tmp_22-02-05_10-00-00.png'', False),
            (''d/a.2.png'', ''d/a.2_tmp_22-02-05_10-00-00.png'', False),
            (''d/a.1_tmp_22-02-05_10-00-00.png'', ''d/a.01.png'', False),
            (''d/a.2_tmp_22-02-05_10-00-00.png'', ''d/a.02.png'', False),
            (''d/a.1_tmp_22-02-05_10-00-00.png'', ''d/a.1.png'', False)],
         renaming_dict =
           [(''d/a.1.png'', ''d/a.1_tmp_22-02-05_10-00-00.png''),
            (''d/a.2.png'', ''d/a.2_tmp_22-02-05_10-00-00.png''),
            (''d/a.1_tmp_22-02-05_10-00-00.png'', ''d/a.01.png'')],
         seqs_data_dict = [((''a'', ''png''), [''1'', ''2''])]\<rparr>)"
  by (simp add: run_defs)

subsection \<open>Claim C3: the rename map after a rename of the second phase\<close>

text \<open>
  C3. The directory \<^verbatim>\<open>d\<close> holds the single file \<^verbatim>\<open>a.1.png\<close> and no rename fails. After the
  rename of the second phase the dictionary still maps the original path to the temporary
  path, which is no longer on disk, and has a second entry whose key is the temporary path:
  the invariant does not hold.
\<close>

theorem C3_rename_map_after_a_phase2_rename:
  "(case renumber_files no_faults ''d'' 1 2
           (on_disk [(''d'', Directory), (''d/a.1.png'', RegFile 1)]) of
      Inl z \<Rightarrow> False
    | Inr s' \<Rightarrow>
        renaming_dict s' =
          [(''d/a.1.png'', ''d/a.1_tmp_22-02-05_10-00-00.png''),
           (''d/a.1_tmp_22-02-05_10-00-00.png'', ''d/a.01.png'')]
        \<and> fs s' = [(''d/a.01.png'', RegFile 1), (''d'', Directory)]
        \<and> \<not> os_path_exists (fs s') ''d/a.1_tmp_22-02-05_10-00-00.png''
        \<and> \<not> rename_map_consistent s')"
  by (simp add: run_defs rename_map_consistent_def)

subsection \<open>Entries the first loop skips\<close>

lemma stage_file_skip: "\<not> is_seq_file (fs s) path file \<Longrightarrow> stage_file e path file s = Inr s"
  by (auto simp: stage_file_def is_seq_file_def seq_parts_def Let_def)

lemma stage_files_skip_all:
  "list_all (\<lambda>file. \<not> is_seq_file (fs s) path file) files \<Longrightarrow> stage_files e path files s = Inr s"
  by (induction files) (simp_all add: stage_file_skip)

subsection \<open>Exceptions of a rename and of the rollback\<close>

lemma rename_call_Inl:
  "rename_call e src dst s = Inl (x, s') \<Longrightarrow>
   os_rename e src dst (fs s) = Inl x
   \<and> s' = s\<lparr>trace := trace s @ [(src, dst, os_path_exists (fs s) dst)]\<rparr>"
  by (auto simp: rename_call_def Let_def split: sum.splits)

lemma rename_call_Inr:
  "rename_call e src dst s = Inr s' \<Longrightarrow>
   (\<exists>f. os_rename e src dst (fs s) = Inr f
        \<and> s' = s\<lparr>trace := trace s @ [(src, dst, os_path_exists (fs s) dst)], fs := f\<rparr>)"
  by (auto simp: rename_call_def Let_def split: sum.splits)

lemma restore_original_names_Inl:
  "restore_original_names e d s = Inl (x, s') \<Longrightarrow>
   (\<exists>org cur. (org, cur) \<in> set d \<and> os_rename e cur org (fs s') = Inl x)
   \<and> renaming_dict s' = renaming_dict s \<and> logs s' = logs s"
proof (induction d arbitrary: s)
  case Nil
  then show ?case by simp
next
  case (Cons p d)
  obtain org cur where p: "p = (org, cur)" by (cases p)
  show ?case
  proof (cases "rename_call e cur org s")
    case (Inl z)
    with Cons.prems p have "rename_call e cur org s = Inl (x, s')" by simp
    from rename_call_Inl [OF this] show ?thesis using p by auto
  next
    case (Inr s1)
    with Cons.prems p have "restore_original_names e d s1 = Inl (x, s')" by simp
    from Cons.IH [OF this] rename_call_Inr [OF Inr] show ?thesis by auto
  qed
qed

subsection \<open>File names\<close>

lemma split_dot_nonempty: "split_dot s \<noteq> []"
  by (induction s) (auto split: list.splits)

lemma split_dot_nodot: "CHR ''.'' \<notin> set s \<Longrightarrow> split_dot s = [s]"
  by (induction s) auto

lemma split_dot_append: "CHR ''.'' \<notin> set a \<Longrightarrow> split_dot (a @ CHR ''.'' # r) = a # split_dot r"
  by (induction a) auto

lemma split_dot_cases:
  "split_dot s = w # ws \<Longrightarrow>
   CHR ''.'' \<notin> set w \<and> ((ws = [] \<and> s = w) \<or> (\<exists>r. s = w @ CHR ''.'' # r \<and> split_dot r = ws))"
proof (induction s arbitrary: w ws)
  case Nil
  then show ?case by simp
next
  case (Cons c s)
  show ?case
  proof (cases "c = CHR ''.''")
    case True
    with Cons.prems show ?thesis by auto
  next
    case False
    obtain v vs where v: "split_dot s = v # vs"
      using split_dot_nonempty [of s] by (cases "split_dot s") auto
    with Cons.prems False have w: "w = c # v" "ws = vs" by auto
    from Cons.IH [OF v] False w show ?thesis by auto
  qed
qed

lemma split_dot_three:
  "split_dot s = [a, b, c] \<Longrightarrow>
   s = seq_name a b c \<and> CHR ''.'' \<notin> set a \<and> CHR ''.'' \<notin> set b \<and> CHR ''.'' \<notin> set c"
proof -
  assume s: "split_dot s = [a, b, c]"
  from split_dot_cases [OF s] obtain r where
    1: "CHR ''.'' \<notin> set a" "s = a @ CHR ''.'' # r" "split_dot r = [b, c]" by auto
  from split_dot_cases [OF 1(3)] obtain r' where
    2: "CHR ''.'' \<notin> set b" "r = b @ CHR ''.'' # r'" "split_dot r' = [c]" by auto
  from split_dot_cases [OF 2(3)] split_dot_nonempty have 3: "CHR ''.'' \<notin> set c" "r' = c"
    by auto
  from 1 2 3 show ?thesis by (simp add: seq_name_def)
qed

lemma split_dot_seq_name:
  "CHR ''.'' \<notin> set n \<Longrightarrow> CHR ''.'' \<notin> set t \<Longrightarrow> CHR ''.'' \<notin> set x \<Longrightarrow>
   split_dot (seq_name n t x) = [n, t, x]"
  by (simp add: seq_name_def split_dot_append split_dot_nodot)

lemma isnumeric_chars: "isnumeric t \<Longrightarrow> c \<in> set t \<Longrightarrow> numeric_char c"
  by (simp add: isnumeric_def list_all_iff)

lemma isnumeric_nodot: "isnumeric t \<Longrightarrow> CHR ''.'' \<notin> set t"
  using isnumeric_chars numeric_char_not_special by blast

lemma seq_parts_Some:
  "seq_parts file = Some (n, t, x) \<longleftrightarrow>
   file = seq_name n t x \<and> CHR ''.'' \<notin> set n \<and> CHR ''.'' \<notin> set x \<and> isnumeric t"
proof
  assume "seq_parts file = Some (n, t, x)"
  then have l: "length (split_dot file) = 3" and t: "isnumeric t"
    and p: "split_dot file ! 0 = n" "split_dot file ! 1 = t" "split_dot file ! 2 = x"
    by (auto simp: seq_parts_def Let_def split: if_splits)
  from l obtain a b c where abc: "split_dot file = [a, b, c]"
    by (auto simp: length_Suc_conv numeral_3_eq_3)
  with p have "split_dot file = [n, t, x]" by simp
  from split_dot_three [OF this] t
  show "file = seq_name n t x \<and> CHR ''.'' \<notin> set n \<and> CHR ''.'' \<notin> set x \<and> isnumeric t" by simp
next
  assume a: "file = seq_name n t x \<and> CHR ''.'' \<notin> set n \<and> CHR ''.'' \<notin> set x \<and> isnumeric t"
  then have "split_dot file = [n, t, x]"
    by (simp add: split_dot_seq_name isnumeric_nodot)
  with a show "seq_parts file = Some (n, t, x)" by (simp add: seq_parts_def)
qed

lemma seq_name_inj:
  assumes "seq_name n t x = seq_name n' t' x'"
    and "CHR ''.'' \<notin> set n" "CHR ''.'' \<notin> set n'" "CHR ''.'' \<notin> set x" "CHR ''.'' \<notin> set x'"
  shows "n = n' \<and> t = t' \<and> x = x'"
proof -
  have h: "\<And>a a' r r'. CHR ''.'' \<notin> set a \<Longrightarrow> CHR ''.'' \<notin> set a' \<Longrightarrow>
             a @ CHR ''.'' # r = a' @ CHR ''.'' # r' \<Longrightarrow> a = a' \<and> r = r'"
  proof -
    fix a a' r r' :: string
    assume d: "CHR ''.'' \<notin> set a" "CHR ''.'' \<notin> set a'" and e: "a @ CHR ''.'' # r = a' @ CHR ''.'' # r'"
    have "takeWhile (\<lambda>c. c \<noteq> CHR ''.'') (a @ CHR ''.'' # r) = a"
      using d(1) by (induction a) auto
    moreover have "takeWhile (\<lambda>c. c \<noteq> CHR ''.'') (a' @ CHR ''.'' # r') = a'"
      using d(2) by (induction a') auto
    ultimately have "a = a'" using e by simp
    with e show "a = a' \<and> r = r'" by simp
  qed
  from assms(1) have e1: "n @ CHR ''.'' # (t @ ''.'' @ x) = n' @ CHR ''.'' # (t' @ ''.'' @ x')"
    by (simp add: seq_name_def)
  from h [OF assms(2,3) e1] have n: "n = n'" and e2: "t @ ''.'' @ x = t' @ ''.'' @ x'" by auto
  from e2 have "rev (t @ ''.'' @ x) = rev (t' @ ''.'' @ x')" by simp
  then have "rev x @ CHR ''.'' # rev t = rev x' @ CHR ''.'' # rev t'" by simp
  from h [OF _ _ this] assms(4,5) have "rev x = rev x' \<and> rev t = rev t'" by simp
  with n show ?thesis by simp
qed

lemma two_digits_chars: "c \<in> set (two_digits k) \<Longrightarrow> is_digit c"
  by (auto simp: two_digits_def is_digit_digit_char)

lemma TEMP_SUFIX_chars:
  "c \<in> set (TEMP_SUFIX t) \<Longrightarrow> c \<noteq> CHR ''.'' \<and> c \<noteq> CHR ''/''"
  using two_digits_chars is_digit_not_special
  by (fastforce simp: TEMP_SUFIX_def DATE_def)

lemma TEMP_SUFIX_underscore: "CHR ''_'' \<in> set (TEMP_SUFIX t)"
  by (simp add: TEMP_SUFIX_def)

lemma tmp_token_not_numeric: "\<not> isnumeric (t @ TEMP_SUFIX d)"
  using isnumeric_chars [of "t @ TEMP_SUFIX d" "CHR ''_''"] TEMP_SUFIX_underscore [of d]
    numeric_char_not_special [of "CHR ''_''"] by auto

lemma tmp_token_not_padded: "t @ TEMP_SUFIX d \<noteq> zfill w (str_int k)"
proof
  assume "t @ TEMP_SUFIX d = zfill w (str_int k)"
  then have "CHR ''_'' \<in> set (zfill w (str_int k))"
    using TEMP_SUFIX_underscore [of d] by (metis Un_iff set_append)
  from zfill_chars [OF this] is_digit_not_special [of "CHR ''_''"] show False by auto
qed

subsection \<open>Plans of renames\<close>

lemma shift_apply: "shift m a b q = (if q = b then m a else if q = a then None else m q)"
  by (simp add: shift_def)

lemma isfile_cong: "map_of f p = map_of g p \<Longrightarrow> os_path_isfile f p = os_path_isfile g p"
  by (simp add: os_path_isfile_def)

lemma isfile_Some: "os_path_isfile f p \<longleftrightarrow> (\<exists>c. map_of f p = Some (RegFile c))"
  by (auto simp: os_path_isfile_def split: option.splits node.splits)

lemma os_rename_file:
  assumes "os_path_isfile f a" and "os_rename e a b f = Inr f'"
  shows "map_of f' = shift (map_of f) a b"
    and "a \<noteq> b \<Longrightarrow> map_of f b \<noteq> Some Directory"
    and "\<not> denied e a b"
proof -
  from assms(1) obtain c where c: "map_of f a = Some (RegFile c)" by (auto simp: isfile_Some)
  from assms(2) c show d: "\<not> denied e a b"
    by (auto simp: os_rename_def split: if_splits)
  show "map_of f' = shift (map_of f) a b"
  proof (cases "a = b")
    case True
    with assms(2) c d have "f' = f" by (simp add: os_rename_def)
    with True show ?thesis by (simp add: fun_eq_iff shift_apply)
  next
    case False
    with assms(2) c d have "f' = (b, RegFile c) # AList.delete a (AList.delete b f)"
      by (auto simp: os_rename_def split: if_splits)
    with False c show ?thesis by (auto simp: fun_eq_iff delete_conv' shift_apply)
  qed
  show "a \<noteq> b \<Longrightarrow> map_of f b \<noteq> Some Directory"
    using assms(2) c d by (auto simp: os_rename_def split: if_splits)
qed

lemma os_rename_file_ok:
  assumes "os_path_isfile f a" and "\<not> denied e a b" and "map_of f b \<noteq> Some Directory"
  shows "\<exists>f'. os_rename e a b f = Inr f'"
proof -
  from assms(1) obtain c where c: "map_of f a = Some (RegFile c)" by (auto simp: isfile_Some)
  with assms(2,3) show ?thesis by (simp add: os_rename_def)
qed

lemma moved_append: "moved m (ps @ qs) = moved (moved m ps) qs"
  by (induction ps arbitrary: m) auto

lemma moved_other: "q \<notin> fst ` set ps \<Longrightarrow> q \<notin> snd ` set ps \<Longrightarrow> moved m ps q = m q"
  by (induction ps arbitrary: m) (auto simp: shift_apply)

lemma separate_Cons:
  "separate ((a, b) # ps) \<Longrightarrow>
   separate ps \<and> a \<notin> fst ` set ps \<and> b \<notin> snd ` set ps \<and> a \<notin> snd ` set ps
   \<and> b \<notin> fst ` set ps \<and> a \<noteq> b"
  by (auto simp: separate_def)

lemma separate_take: "separate ps \<Longrightarrow> separate (take k ps)"
proof -
  assume s: "separate ps"
  have "set (map fst (take k ps)) \<subseteq> set (map fst ps)" "set (map snd (take k ps)) \<subseteq> set (map snd ps)"
    by (auto dest: in_set_takeD)
  with s show ?thesis
    unfolding separate_def by (auto simp: take_map [symmetric])
qed

lemma moved_dst:
  "separate ps \<Longrightarrow> (a, b) \<in> set ps \<Longrightarrow> moved m ps b = m a"
proof (induction ps arbitrary: m)
  case Nil
  then show ?case by simp
next
  case (Cons p ps)
  obtain a0 b0 where p: "p = (a0, b0)" by (cases p)
  from separate_Cons [OF Cons.prems(1) [unfolded p]] have sep: "separate ps"
    and n: "a0 \<notin> fst ` set ps" "b0 \<notin> snd ` set ps" "a0 \<notin> snd ` set ps" "b0 \<notin> fst ` set ps" "a0 \<noteq> b0"
    by auto
  show ?case
  proof (cases "(a, b) = (a0, b0)")
    case True
    with n p show ?thesis by (simp add: moved_other shift_apply)
  next
    case False
    with Cons.prems(2) p have in_ps: "(a, b) \<in> set ps" by auto
    then have "a \<in> fst ` set ps" by force
    with n have "a \<noteq> a0" "a \<noteq> b0" by auto
    with Cons.IH [OF sep in_ps] p show ?thesis by (simp add: shift_apply)
  qed
qed

lemma moved_src:
  "separate ps \<Longrightarrow> a \<in> fst ` set ps \<Longrightarrow> moved m ps a = None"
proof (induction ps arbitrary: m)
  case Nil
  then show ?case by simp
next
  case (Cons p ps)
  obtain a0 b0 where p: "p = (a0, b0)" by (cases p)
  from separate_Cons [OF Cons.prems(1) [unfolded p]] have sep: "separate ps"
    and n: "a0 \<notin> fst ` set ps" "b0 \<notin> snd ` set ps" "a0 \<notin> snd ` set ps" "b0 \<notin> fst ` set ps" "a0 \<noteq> b0"
    by auto
  show ?case
  proof (cases "a = a0")
    case True
    with n p show ?thesis by (simp add: moved_other shift_apply)
  next
    case False
    with Cons.prems(2) p have "a \<in> fst ` set ps" by auto
    from Cons.IH [OF sep this] p show ?thesis by simp
  qed
qed

lemma trace_of_take: "trace_of m (take k ps) = take k (trace_of m ps)"
proof (induction ps arbitrary: m k)
  case Nil
  then show ?case by simp
next
  case (Cons p ps)
  then show ?case by (cases k) auto
qed

lemma trace_of_clean:
  "distinct (map snd ps) \<Longrightarrow> \<forall>b \<in> snd ` set ps. m b = None \<Longrightarrow>
   list_all (\<lambda>c. \<not> snd (snd c)) (trace_of m ps)"
proof (induction ps arbitrary: m)
  case Nil
  then show ?case by simp
next
  case (Cons p ps)
  have "\<forall>b' \<in> snd ` set ps. shift m (fst p) (snd p) b' = None"
  proof
    fix b' assume b': "b' \<in> snd ` set ps"
    have "snd p \<notin> set (map snd ps)" using Cons.prems(1) by simp
    moreover have "b' \<in> set (map snd ps)" using b' by simp
    ultimately have "b' \<noteq> snd p" by blast
    moreover from b' Cons.prems(2) have "m b' = None" by auto
    ultimately show "shift m (fst p) (snd p) b' = None" by (simp add: shift_apply)
  qed
  with Cons.IH [of "shift m (fst p) (snd p)"] Cons.prems show ?case by auto
qed

lemma run_plan_Inr:
  assumes "separate ps" and "\<forall>a \<in> fst ` set ps. os_path_isfile (fs s) a"
    and "run_plan e ps s = Inr s'"
  shows "map_of (fs s') = moved (map_of (fs s)) ps
         \<and> trace s' = trace s @ trace_of (map_of (fs s)) ps
         \<and> renaming_dict s' = recorded (renaming_dict s) ps
         \<and> logs s' = logs s \<and> seqs_data_dict s' = seqs_data_dict s"
  using assms
proof (induction ps arbitrary: s)
  case Nil
  then show ?case by (simp add: recorded_def)
next
  case (Cons p ps)
  obtain a b where p: "p = (a, b)" by (cases p)
  from separate_Cons [OF Cons.prems(1) [unfolded p]] have sep: "separate ps"
    and n: "a \<notin> fst ` set ps" "b \<notin> fst ` set ps" by auto
  from Cons.prems(2) p have fa: "os_path_isfile (fs s) a" by simp
  from Cons.prems(3) p obtain s1 where
    c: "rename_call e a b s = Inr s1"
    and r: "run_plan e ps (s1\<lparr>renaming_dict := AList.update a b (renaming_dict s1)\<rparr>) = Inr s'"
    by (auto split: sum.splits)
  from rename_call_Inr [OF c] obtain f where
    f: "os_rename e a b (fs s) = Inr f"
    and s1: "s1 = s\<lparr>trace := trace s @ [(a, b, os_path_exists (fs s) b)], fs := f\<rparr>" by auto
  let ?s2 = "s1\<lparr>renaming_dict := AList.update a b (renaming_dict s1)\<rparr>"
  from os_rename_file(1) [OF fa f] s1
  have m: "map_of (fs ?s2) = shift (map_of (fs s)) a b" by simp
  have "\<forall>a' \<in> fst ` set ps. os_path_isfile (fs ?s2) a'"
  proof
    fix a' assume a': "a' \<in> fst ` set ps"
    with n have "a' \<noteq> a" "a' \<noteq> b" by auto
    with m have "map_of (fs ?s2) a' = map_of (fs s) a'" by (simp add: shift_apply)
    from isfile_cong [OF this] Cons.prems(2) a' show "os_path_isfile (fs ?s2) a'" by simp
  qed
  from Cons.IH [OF sep this r] m s1 p show ?case
    by (simp add: recorded_def os_path_exists_def)
qed

lemma run_plan_Inl:
  assumes "separate ps" and "\<forall>a \<in> fst ` set ps. os_path_isfile (fs s) a"
    and "run_plan e ps s = Inl (x, s')"
  shows "\<exists>k<length ps. map_of (fs s') = moved (map_of (fs s)) (take k ps)
         \<and> trace s' = trace s @ trace_of (map_of (fs s)) (take (Suc k) ps)
         \<and> renaming_dict s' = recorded (renaming_dict s) (take k ps)
         \<and> os_rename e (fst (ps ! k)) (snd (ps ! k)) (fs s') = Inl x
         \<and> logs s' = logs s \<and> seqs_data_dict s' = seqs_data_dict s"
  using assms
proof (induction ps arbitrary: s)
  case Nil
  then show ?case by simp
next
  case (Cons p ps)
  obtain a b where p: "p = (a, b)" by (cases p)
  from separate_Cons [OF Cons.prems(1) [unfolded p]] have sep: "separate ps"
    and n: "a \<notin> fst ` set ps" "b \<notin> fst ` set ps" by auto
  from Cons.prems(2) p have fa: "os_path_isfile (fs s) a" by simp
  show ?case
  proof (cases "rename_call e a b s")
    case (Inl z)
    with Cons.prems(3) p have "rename_call e a b s = Inl (x, s')" by simp
    from rename_call_Inl [OF this] p show ?thesis
      by (intro exI [of _ 0]) (simp add: recorded_def os_path_exists_def)
  next
    case (Inr s1)
    with Cons.prems(3) p have
      r: "run_plan e ps (s1\<lparr>renaming_dict := AList.update a b (renaming_dict s1)\<rparr>) = Inl (x, s')"
      by simp
    from rename_call_Inr [OF Inr] obtain f where
      f: "os_rename e a b (fs s) = Inr f"
      and s1: "s1 = s\<lparr>trace := trace s @ [(a, b, os_path_exists (fs s) b)], fs := f\<rparr>" by auto
    let ?s2 = "s1\<lparr>renaming_dict := AList.update a b (renaming_dict s1)\<rparr>"
    from os_rename_file(1) [OF fa f] s1
    have m: "map_of (fs ?s2) = shift (map_of (fs s)) a b" by simp
    have "\<forall>a' \<in> fst ` set ps. os_path_isfile (fs ?s2) a'"
    proof
      fix a' assume a': "a' \<in> fst ` set ps"
      with n have "a' \<noteq> a" "a' \<noteq> b" by auto
      with m have "map_of (fs ?s2) a' = map_of (fs s) a'" by (simp add: shift_apply)
      from isfile_cong [OF this] Cons.prems(2) a' show "os_path_isfile (fs ?s2) a'" by simp
    qed
    from Cons.IH [OF sep this r] obtain k where k: "k < length ps"
      "map_of (fs s') = moved (map_of (fs ?s2)) (take k ps)"
      "trace s' = trace ?s2 @ trace_of (map_of (fs ?s2)) (take (Suc k) ps)"
      "renaming_dict s' = recorded (renaming_dict ?s2) (take k ps)"
      "os_rename e (fst (ps ! k)) (snd (ps ! k)) (fs s') = Inl x"
      "logs s' = logs ?s2" "seqs_data_dict s' = seqs_data_dict ?s2" by blast
    with m s1 p show ?thesis
      by (intro exI [of _ "Suc k"]) (simp add: recorded_def os_path_exists_def)
  qed
qed

subsection \<open>The loops as plans\<close>

lemma with_seqs_simps [simp]:
  "with_seqs c (Inl (x, s)) = Inl (x, s\<lparr>seqs_data_dict := c\<rparr>)"
  "with_seqs c (Inr s) = Inr (s\<lparr>seqs_data_dict := c\<rparr>)"
  "with_seqs c (with_seqs c' r) = with_seqs c r"
  by (auto simp: with_seqs_def split: sum.splits)

lemma with_dict_simps [simp]:
  "with_dict d (Inl (x, s)) = Inl (x, s\<lparr>renaming_dict := d\<rparr>)"
  "with_dict d (Inr s) = Inr (s\<lparr>renaming_dict := d\<rparr>)"
  "with_dict d (with_dict d' r) = with_dict d r"
  by (auto simp: with_dict_def split: sum.splits)

lemma state_of_simps [simp]: "state_of (Inl (x, s)) = s" "state_of (Inr s) = s"
  by (simp_all add: state_of_def)

lemma rename_call_seqs:
  "rename_call e a b (s\<lparr>seqs_data_dict := c\<rparr>) = with_seqs c (rename_call e a b s)"
  by (simp add: rename_call_def Let_def with_seqs_def split: sum.splits)

lemma run_plan_seqs:
  "run_plan e ps (s\<lparr>seqs_data_dict := c\<rparr>) = with_seqs c (run_plan e ps s)"
proof (induction ps arbitrary: s)
  case Nil
  then show ?case by simp
next
  case (Cons p ps)
  obtain a b where p: "p = (a, b)" by (cases p)
  show ?case
  proof (cases "rename_call e a b s")
    case (Inl z)
    then show ?thesis by (cases z) (simp add: p rename_call_seqs)
  next
    case (Inr s1)
    have r: "s1\<lparr>seqs_data_dict := c, renaming_dict := AList.update a b (renaming_dict s1)\<rparr>
          = (s1\<lparr>renaming_dict := AList.update a b (renaming_dict s1)\<rparr>)\<lparr>seqs_data_dict := c\<rparr>"
      by simp
    have "run_plan e ps
            (s1\<lparr>seqs_data_dict := c, renaming_dict := AList.update a b (renaming_dict s1)\<rparr>)
          = with_seqs c (run_plan e ps (s1\<lparr>renaming_dict := AList.update a b (renaming_dict s1)\<rparr>))"
      by (subst r) (rule Cons.IH)
    with Inr show ?thesis by (simp add: p rename_call_seqs)
  qed
qed

lemma rename_call_dict:
  "with_dict d0 (rename_call e a b (s\<lparr>renaming_dict := d\<rparr>)) = with_dict d0 (rename_call e a b s)"
  by (simp add: rename_call_def Let_def with_dict_def split: sum.splits)

lemma rename_call_dict_cases:
  "rename_call e a b (s\<lparr>renaming_dict := d\<rparr>) =
     (case rename_call e a b s of
        Inl z \<Rightarrow> Inl (fst z, (snd z)\<lparr>renaming_dict := d\<rparr>)
      | Inr s1 \<Rightarrow> Inr (s1\<lparr>renaming_dict := d\<rparr>))"
  by (simp add: rename_call_def Let_def split: sum.splits)

lemma run_plan_dict:
  "with_dict d0 (run_plan e ps (s\<lparr>renaming_dict := d\<rparr>)) = with_dict d0 (run_plan e ps s)"
proof (induction ps arbitrary: s d)
  case Nil
  then show ?case by simp
next
  case (Cons p ps)
  obtain a b where p: "p = (a, b)" by (cases p)
  show ?case
  proof (cases "rename_call e a b s")
    case (Inl z)
    then show ?thesis by (cases z) (simp add: p rename_call_dict_cases)
  next
    case (Inr s1)
    let ?d1 = "AList.update a b d" and ?d2 = "AList.update a b (renaming_dict s1)"
    have "with_dict d0 (run_plan e ps (s1\<lparr>renaming_dict := ?d1\<rparr>))
          = with_dict d0 (run_plan e ps s1)" by (rule Cons.IH)
    also have "\<dots> = with_dict d0 (run_plan e ps (s1\<lparr>renaming_dict := ?d2\<rparr>))"
      by (rule Cons.IH [symmetric])
    finally show ?thesis using Inr by (simp add: p rename_call_dict_cases)
  qed
qed

lemma restore_original_names_plan:
  "restore_original_names e d s
   = with_dict (renaming_dict s) (run_plan e (map (\<lambda>p. (snd p, fst p)) d) s)"
proof (induction d arbitrary: s)
  case Nil
  then show ?case by simp
next
  case (Cons p d)
  obtain org cur where p: "p = (org, cur)" by (cases p)
  show ?case
  proof (cases "rename_call e cur org s")
    case (Inl z)
    from rename_call_Inl [of e cur org s "fst z" "snd z"] Inl
    have "renaming_dict (snd z) = renaming_dict s" by simp
    with Inl show ?thesis by (cases z) (simp add: p)
  next
    case (Inr s1)
    from rename_call_Inr [OF Inr] have d1: "renaming_dict s1 = renaming_dict s" by auto
    have "restore_original_names e (p # d) s = restore_original_names e d s1"
      using Inr by (simp add: p)
    also have "\<dots> = with_dict (renaming_dict s)
                       (run_plan e (map (\<lambda>p. (snd p, fst p)) d) s1)"
      by (simp add: Cons.IH d1)
    also have "\<dots> = with_dict (renaming_dict s)
                       (run_plan e (map (\<lambda>p. (snd p, fst p)) d)
                          (s1\<lparr>renaming_dict := AList.update cur org (renaming_dict s1)\<rparr>))"
      by (rule run_plan_dict [symmetric])
    finally show ?thesis using Inr by (simp add: p)
  qed
qed

lemma number_frames_plan:
  "number_frames e path len name ext toks k s
   = run_plan e (frame_pairs e path len name ext toks k) s"
  by (induction toks arbitrary: k s) (auto split: sum.splits)

lemma run_plan_append:
  "run_plan e (ps @ qs) s =
     (case run_plan e ps s of Inl z \<Rightarrow> Inl z | Inr s1 \<Rightarrow> run_plan e qs s1)"
  by (induction ps arbitrary: s) (auto split: sum.splits)

subsection \<open>The first phase as a plan\<close>

lemma stage_file_seq:
  assumes "is_seq_file (fs s) path file"
  shows "stage_file e path file s =
     (case rename_call e (path @ ''/'' @ file) (snd (stage_pair e path file))
             (s\<lparr>seqs_data_dict := group_file (seqs_data_dict s) file\<rparr>) of
        Inl z \<Rightarrow> Inl z
      | Inr s2 \<Rightarrow>
          Inr (s2\<lparr>renaming_dict :=
                    AList.update (path @ ''/'' @ file) (snd (stage_pair e path file))
                      (renaming_dict s2)\<rparr>))"
proof -
  let ?n = "split_dot file ! 0" and ?t = "split_dot file ! 1" and ?x = "split_dot file ! 2"
  from assms have f: "os_path_isfile (fs s) (path @ ''/'' @ file)"
    and l: "length (split_dot file) = 3" and n: "isnumeric ?t"
    by (auto simp: is_seq_file_def seq_parts_def Let_def split: if_splits)
  then have p: "seq_parts file = Some (?n, ?t, ?x)"
    by (simp add: seq_parts_def Let_def)
  have b: "snd (stage_pair e path file) = tmp_path e path ?n ?t ?x"
    by (simp add: stage_pair_def p)
  have g: "group_file (seqs_data_dict s) file =
           (case map_of (seqs_data_dict s) (?n, ?x) of
              None \<Rightarrow> AList.update (?n, ?x) [?t] (seqs_data_dict s)
            | Some l \<Rightarrow> AList.update (?n, ?x) (l @ [?t]) (seqs_data_dict s))"
    by (simp add: group_file_def bucket_add_def p split: option.splits)
  show ?thesis
    unfolding b g using f l n
    by (simp add: stage_file_def Let_def cong: sum.case_cong option.case_cong)
qed

lemma rename_keeps_entry:
  assumes "os_path_isfile f a" and "os_rename e a b f = Inr f'"
    and "p \<noteq> a" and "map_of f p \<noteq> None"
  shows "map_of f' p \<noteq> None \<and> os_path_isfile f' p = os_path_isfile f p"
proof (cases "p = b")
  case True
  with assms(3) have ab: "a \<noteq> b" by simp
  from assms(4) True obtain n where n: "map_of f b = Some n" by auto
  with os_rename_file(2) [OF assms(1,2) ab] True
  have "os_path_isfile f p" by (cases n) (auto simp: isfile_Some)
  moreover from os_rename_file(1) [OF assms(1,2)] True assms(1)
  have "os_path_isfile f' p" by (auto simp: isfile_Some shift_apply)
  ultimately show ?thesis by (auto simp: isfile_Some)
next
  case False
  with os_rename_file(1) [OF assms(1,2)] assms(3)
  have "map_of f' p = map_of f p" by (simp add: shift_apply)
  with assms(4) isfile_cong [OF this] show ?thesis by simp
qed

lemma stage_files_plan:
  assumes "distinct files"
    and "\<forall>file \<in> set files. map_of (fs s) (path @ ''/'' @ file) \<noteq> None"
  shows "\<exists>c. stage_files e path files s
               = with_seqs c (run_plan e (staging e path (fs s) files) s)
             \<and> (\<forall>s'. stage_files e path files s = Inr s'
                   \<longrightarrow> c = grouped (seqs_data_dict s) (staged (fs s) path files))"
  using assms
proof (induction files arbitrary: s)
  case Nil
  show ?case
    by (intro exI [of _ "seqs_data_dict s"]) (simp add: staging_def staged_def grouped_def)
next
  case (Cons entry files)
  from Cons.prems have d: "distinct files" and nf: "entry \<notin> set files"
    and ex: "\<forall>file' \<in> set files. map_of (fs s) (path @ ''/'' @ file') \<noteq> None" by auto
  show ?case
  proof (cases "is_seq_file (fs s) path entry")
    case False
    then have "stage_files e path (entry # files) s = stage_files e path files s"
      by (simp add: stage_file_skip)
    moreover from False have "staged (fs s) path (entry # files) = staged (fs s) path files"
      by (simp add: staged_def)
    ultimately show ?thesis using Cons.IH [OF d ex] by (simp add: staging_def)
  next
    case True
    let ?a = "path @ ''/'' @ entry" and ?b = "snd (stage_pair e path entry)"
    let ?g = "group_file (seqs_data_dict s) entry"
    from True have fa: "os_path_isfile (fs s) ?a" by (simp add: is_seq_file_def)
    from True have st: "staged (fs s) path (entry # files) = entry # staged (fs s) path files"
      by (simp add: staged_def)
    then have pl: "staging e path (fs s) (entry # files) = (?a, ?b) # staging e path (fs s) files"
      by (simp add: staging_def stage_pair_def)
    show ?thesis
    proof (cases "rename_call e ?a ?b s")
      case (Inl z)
      then have "stage_files e path (entry # files) s = Inl (fst z, (snd z)\<lparr>seqs_data_dict := ?g\<rparr>)"
        by (simp add: stage_file_seq [OF True] rename_call_seqs with_seqs_def)
      moreover from Inl have "run_plan e (staging e path (fs s) (entry # files)) s = Inl z"
        by (simp add: pl)
      ultimately show ?thesis
        by (intro exI [of _ ?g]) (simp add: with_seqs_def)
    next
      case (Inr s1)
      let ?u = "AList.update ?a ?b (renaming_dict s1)"
      let ?s2 = "s1\<lparr>seqs_data_dict := ?g, renaming_dict := ?u\<rparr>"
      let ?s2' = "s1\<lparr>renaming_dict := ?u\<rparr>"
      have s2: "?s2 = ?s2'\<lparr>seqs_data_dict := ?g\<rparr>" by simp
      from rename_call_Inr [OF Inr] obtain f where
        f: "os_rename e ?a ?b (fs s) = Inr f" and s1: "fs s1 = f" "seqs_data_dict s1 = seqs_data_dict s"
        by auto
      have keep: "\<forall>file' \<in> set files. map_of (fs ?s2) (path @ ''/'' @ file') \<noteq> None
                    \<and> os_path_isfile (fs ?s2) (path @ ''/'' @ file')
                        = os_path_isfile (fs s) (path @ ''/'' @ file')"
      proof
        fix file' assume m: "file' \<in> set files"
        with nf have "path @ ''/'' @ file' \<noteq> ?a" by auto
        from rename_keeps_entry [OF fa f this] ex m s1
        show "map_of (fs ?s2) (path @ ''/'' @ file') \<noteq> None
                    \<and> os_path_isfile (fs ?s2) (path @ ''/'' @ file')
                        = os_path_isfile (fs s) (path @ ''/'' @ file')" by simp
      qed
      then have same: "staged (fs ?s2) path files = staged (fs s) path files"
        unfolding staged_def by (intro filter_cong) (auto simp: is_seq_file_def)
      from keep have ex2: "\<forall>file' \<in> set files. map_of (fs ?s2) (path @ ''/'' @ file') \<noteq> None"
        by simp
      from Cons.IH [OF d ex2] obtain c where
        c: "stage_files e path files ?s2
              = with_seqs c (run_plan e (staging e path (fs ?s2) files) ?s2)"
        and g: "\<forall>s'. stage_files e path files ?s2 = Inr s'
                  \<longrightarrow> c = grouped (seqs_data_dict ?s2) (staged (fs ?s2) path files)"
        by blast
      have step: "stage_files e path (entry # files) s = stage_files e path files ?s2"
        using Inr by (simp add: stage_file_seq [OF True] rename_call_seqs)
      have r: "run_plan e (staging e path (fs ?s2) files) ?s2
            = with_seqs ?g (run_plan e (staging e path (fs s) files) ?s2')"
        unfolding staging_def same by (subst s2) (rule run_plan_seqs)
      have 1: "stage_files e path (entry # files) s
                      = with_seqs c (run_plan e (staging e path (fs s) (entry # files)) s)"
      proof -
        have "run_plan e (staging e path (fs s) (entry # files)) s
              = run_plan e (staging e path (fs s) files) ?s2'"
          using Inr by (simp add: pl)
        moreover have "stage_files e path files ?s2
              = with_seqs c (run_plan e (staging e path (fs s) files) ?s2')"
          using c r by simp
        ultimately show ?thesis unfolding step by simp
      qed
      have 2: "grouped (seqs_data_dict ?s2) (staged (fs ?s2) path files)
               = grouped (seqs_data_dict s) (staged (fs s) path (entry # files))"
        using same by (simp add: st grouped_def)
      from 1 2 g step show ?thesis by (intro exI [of _ c]) simp
    qed
  qed
qed

lemma map_of_bucket_add:
  "map_of (bucket_add key t d) = (map_of d)(key \<mapsto> bucket d key @ [t])"
  by (auto simp: bucket_add_def bucket_def update_conv' split: option.splits)

lemma keys_bucket_add: "set (map fst (bucket_add key t d)) = insert key (set (map fst d))"
  by (auto simp: bucket_add_def update_keys insert_absorb simp del: set_map split: option.splits)

lemma distinct_bucket_add: "distinct (map fst d) \<Longrightarrow> distinct (map fst (bucket_add key t d))"
  by (simp add: bucket_add_def distinct_update split: option.splits)

lemma bucket_grouped: "bucket (grouped d files) key = bucket d key @ tokens_of key files"
proof (induction files arbitrary: d)
  case Nil
  then show ?case by (simp add: grouped_def tokens_of_def)
next
  case (Cons entry files)
  have "bucket (group_file d entry) key
        = bucket d key @ tokens_of key [entry]"
    by (auto simp: group_file_def tokens_of_def bucket_def map_of_bucket_add split: option.splits)
  moreover have "tokens_of key [entry] @ tokens_of key files = tokens_of key (entry # files)"
    by (simp add: tokens_of_def)
  ultimately show ?case using Cons.IH [of "group_file d entry"]
    by (simp add: grouped_def)
qed

lemma distinct_grouped: "distinct (map fst d) \<Longrightarrow> distinct (map fst (grouped d files))"
proof (induction files arbitrary: d)
  case Nil
  then show ?case by (simp add: grouped_def)
next
  case (Cons entry files)
  from Cons.prems have "distinct (map fst (group_file d entry))"
    by (simp add: group_file_def distinct_bucket_add split: option.splits)
  from Cons.IH [OF this] show ?case by (simp add: grouped_def)
qed

lemma keys_grouped:
  "key \<in> set (map fst (grouped d files)) \<longleftrightarrow>
   key \<in> set (map fst d)
   \<or> (\<exists>entry \<in> set files. \<exists>p. seq_parts entry = Some p \<and> key = (fst p, snd (snd p)))"
proof (induction files arbitrary: d)
  case Nil
  then show ?case by (simp add: grouped_def)
next
  case (Cons entry files)
  have "key \<in> set (map fst (group_file d entry)) \<longleftrightarrow>
        key \<in> set (map fst d)
        \<or> (\<exists>p. seq_parts entry = Some p \<and> key = (fst p, snd (snd p)))"
    by (cases "seq_parts entry") (auto simp: group_file_def keys_bucket_add simp del: set_map)
  with Cons.IH [of "group_file d entry"] show ?case
    by (simp add: grouped_def del: set_map)
qed

subsection \<open>Paths and the plan of the first phase\<close>

lemma tmp_path_name:
  "tmp_path e path n t x = path @ ''/'' @ seq_name n (t @ TEMP_SUFIX (now e)) x"
  by (simp add: tmp_path_def seq_name_def)

lemma new_path_name:
  "new_path path n k len x = path @ ''/'' @ seq_name n (zfill len (str_int k)) x"
  by (simp add: new_path_def seq_name_def)

lemma tmp_path_inj:
  assumes "tmp_path e path n t x = tmp_path e path n' t' x'"
    and "CHR ''.'' \<notin> set n" "CHR ''.'' \<notin> set n'" "CHR ''.'' \<notin> set x" "CHR ''.'' \<notin> set x'"
  shows "n = n' \<and> t = t' \<and> x = x'"
proof -
  from assms(1) have "seq_name n (t @ TEMP_SUFIX (now e)) x = seq_name n' (t' @ TEMP_SUFIX (now e)) x'"
    by (simp add: tmp_path_name)
  from seq_name_inj [OF this assms(2-5)] show ?thesis by simp
qed

lemma new_path_inj:
  assumes "new_path path n k len x = new_path path n' k' len x'"
    and "CHR ''.'' \<notin> set n" "CHR ''.'' \<notin> set n'" "CHR ''.'' \<notin> set x" "CHR ''.'' \<notin> set x'"
  shows "n = n' \<and> k = k' \<and> x = x'"
proof -
  from assms(1) have "seq_name n (zfill len (str_int k)) x = seq_name n' (zfill len (str_int k')) x'"
    by (simp add: new_path_name)
  from seq_name_inj [OF this assms(2-5)] zfill_str_inj show ?thesis by blast
qed

lemma tmp_path_not_new:
  assumes "CHR ''.'' \<notin> set n" "CHR ''.'' \<notin> set n'" "CHR ''.'' \<notin> set x" "CHR ''.'' \<notin> set x'"
  shows "tmp_path e path n t x \<noteq> new_path path n' k len x'"
proof
  assume "tmp_path e path n t x = new_path path n' k len x'"
  then have "seq_name n (t @ TEMP_SUFIX (now e)) x = seq_name n' (zfill len (str_int k)) x'"
    by (simp add: tmp_path_name new_path_name)
  from seq_name_inj [OF this assms] tmp_token_not_padded show False by blast
qed

lemma tmp_path_not_seq:
  assumes "seq_parts file = Some p" and "CHR ''.'' \<notin> set n" "CHR ''.'' \<notin> set x"
  shows "path @ ''/'' @ file \<noteq> tmp_path e path n t x"
proof
  assume a: "path @ ''/'' @ file = tmp_path e path n t x"
  obtain n' t' x' where p: "p = (n', t', x')" by (cases p)
  from assms(1) p have f: "file = seq_name n' t' x'" "CHR ''.'' \<notin> set n'" "CHR ''.'' \<notin> set x'"
    "isnumeric t'" by (simp_all add: seq_parts_Some)
  from a f(1) have "seq_name n' t' x' = seq_name n (t @ TEMP_SUFIX (now e)) x"
    by (simp add: tmp_path_name)
  from seq_name_inj [OF this f(2) assms(2) f(3) assms(3)] f(4) tmp_token_not_numeric
  show False by auto
qed

lemma separate_Cons_iff:
  "separate (p # ps) \<longleftrightarrow>
   separate ps \<and> fst p \<notin> fst ` set ps \<and> snd p \<notin> snd ` set ps \<and> fst p \<notin> snd ` set ps
   \<and> snd p \<notin> fst ` set ps \<and> fst p \<noteq> snd p"
  by (auto simp: separate_def)

lemma separate_append:
  "separate (ps @ qs) \<longleftrightarrow>
   separate ps \<and> separate qs
   \<and> fst ` set ps \<inter> fst ` set qs = {} \<and> snd ` set ps \<inter> snd ` set qs = {}
   \<and> fst ` set ps \<inter> snd ` set qs = {} \<and> snd ` set ps \<inter> fst ` set qs = {}"
  by (auto simp: separate_def)

lemma separate_Nil [simp]: "separate []"
  by (simp add: separate_def)

lemma separate_swap: "separate ps \<Longrightarrow> separate (map (\<lambda>p. (snd p, fst p)) ps)"
  by (auto simp: separate_def comp_def)

lemma staging_member:
  "(a, b) \<in> set (staging e path f files) \<longleftrightarrow>
   (\<exists>entry n t x. entry \<in> set files \<and> is_seq_file f path entry \<and> seq_parts entry = Some (n, t, x)
      \<and> a = path @ ''/'' @ entry \<and> b = tmp_path e path n t x)"
  by (auto simp: staging_def staged_def stage_pair_def is_seq_file_def)

lemma staging_sources:
  "a \<in> fst ` set (staging e path f files) \<Longrightarrow> os_path_isfile f a"
  by (auto simp: staging_def staged_def stage_pair_def is_seq_file_def)

lemma staging_separate:
  assumes "distinct files"
  shows "separate (staging e path f files)"
proof -
  let ?st = "staged f path files"
  have d: "distinct ?st" using assms by (simp add: staged_def)
  have parts: "\<And>entry. entry \<in> set ?st \<Longrightarrow> \<exists>n t x. seq_parts entry = Some (n, t, x)"
    by (auto simp: staged_def is_seq_file_def)
  have 1: "distinct (map fst (staging e path f files))"
  proof -
    have "map fst (staging e path f files) = map (\<lambda>entry. path @ ''/'' @ entry) ?st"
      by (simp add: staging_def stage_pair_def comp_def)
    with d show ?thesis by (simp add: distinct_map inj_on_def)
  qed
  have 2: "distinct (map snd (staging e path f files))"
  proof -
    have "inj_on (\<lambda>entry. snd (stage_pair e path entry)) (set ?st)"
    proof (rule inj_onI)
      fix p q assume p: "p \<in> set ?st" and q: "q \<in> set ?st"
        and eq: "snd (stage_pair e path p) = snd (stage_pair e path q)"
      from parts [OF p] obtain n t x where pp: "seq_parts p = Some (n, t, x)" by blast
      from parts [OF q] obtain n' t' x' where qq: "seq_parts q = Some (n', t', x')" by blast
      from eq pp qq have "tmp_path e path n t x = tmp_path e path n' t' x'"
        by (simp add: stage_pair_def)
      from tmp_path_inj [OF this] pp qq show "p = q" by (simp add: seq_parts_Some)
    qed
    with d have "distinct (map (\<lambda>entry. snd (stage_pair e path entry)) ?st)"
      by (simp add: distinct_map)
    then show ?thesis by (simp add: staging_def comp_def)
  qed
  have 3: "set (map fst (staging e path f files)) \<inter> set (map snd (staging e path f files)) = {}"
  proof (rule ccontr)
    assume "\<not> ?thesis"
    then obtain c where "c \<in> fst ` set (staging e path f files)"
      "c \<in> snd ` set (staging e path f files)" by auto
    then obtain b a where "(c, b) \<in> set (staging e path f files)"
      "(a, c) \<in> set (staging e path f files)" by force
    then obtain entry p n t x where "seq_parts entry = Some p" "c = path @ ''/'' @ entry"
      "seq_parts (drop (length path + 1) a) = Some (n, t, x)" "c = tmp_path e path n t x"
      by (auto simp: staging_member)
    with tmp_path_not_seq [of entry p n x path e t] show False by (simp add: seq_parts_Some)
  qed
  from 1 2 3 show ?thesis by (simp add: separate_def)
qed

subsection \<open>The second phase as a plan\<close>

lemma renumber_seq_cases:
  "renumber_seq e path start len key s =
     (case find (\<lambda>number. python_int number = None) (bucket (seqs_data_dict s) key) of
        Some number \<Rightarrow> Inl (ValueError number, s)
      | None \<Rightarrow>
          with_seqs (AList.update key (sort_key int_key (bucket (seqs_data_dict s) key))
                       (seqs_data_dict s))
            (run_plan e (seq_plan e path start len (seqs_data_dict s) key) s))"
  by (simp add: renumber_seq_def bucket_def seq_plan_def int_key_def [abs_def] Let_def
      number_frames_plan run_plan_seqs split: option.splits)

lemma bucket_update_other: "key' \<noteq> key \<Longrightarrow> bucket (AList.update key v d) key' = bucket d key'"
  by (simp add: bucket_def update_conv')

lemma numbering_update:
  "key \<notin> set keys \<Longrightarrow>
   numbering e path start len (AList.update key v d) keys = numbering e path start len d keys"
  by (induction keys) (auto simp: numbering_def seq_plan_def bucket_update_other)

lemma run_plan_seqs_result:
  "run_plan e ps s = Inr s' \<Longrightarrow> seqs_data_dict s' = seqs_data_dict s"
proof (induction ps arbitrary: s)
  case Nil
  then show ?case by simp
next
  case (Cons p ps)
  obtain a b where p: "p = (a, b)" by (cases p)
  from Cons.prems p obtain s1 where c: "rename_call e a b s = Inr s1"
    and r: "run_plan e ps (s1\<lparr>renaming_dict := AList.update a b (renaming_dict s1)\<rparr>) = Inr s'"
    by (auto split: sum.splits)
  from Cons.IH [OF r] rename_call_Inr [OF c] show ?case by auto
qed

lemma renumber_seqs_Inr:
  assumes "distinct keys" and "renumber_seqs e path start len keys s = Inr s'"
  shows "\<exists>c. Inr s' = with_seqs c (run_plan e (numbering e path start len (seqs_data_dict s) keys) s)"
  using assms
proof (induction keys arbitrary: s)
  case Nil
  then show ?case by (intro exI [of _ "seqs_data_dict s"]) (simp add: numbering_def)
next
  case (Cons key keys)
  let ?d = "seqs_data_dict s"
  let ?u = "AList.update key (sort_key int_key (bucket ?d key)) ?d"
  from Cons.prems(2) obtain s1 where 1: "renumber_seq e path start len key s = Inr s1"
    and 2: "renumber_seqs e path start len keys s1 = Inr s'"
    by (auto split: sum.splits)
  from 1 obtain s1' where r1: "run_plan e (seq_plan e path start len ?d key) s = Inr s1'"
    and s1: "s1 = s1'\<lparr>seqs_data_dict := ?u\<rparr>"
    by (auto simp: renumber_seq_cases with_seqs_def split: option.splits sum.splits)
  from Cons.prems(1) have d: "distinct keys" and nk: "key \<notin> set keys" by auto
  from Cons.IH [OF d 2] obtain c where
    c: "Inr s' = with_seqs c (run_plan e (numbering e path start len (seqs_data_dict s1) keys) s1)"
    by blast
  have "numbering e path start len (seqs_data_dict s1) keys = numbering e path start len ?d keys"
    using s1 nk by (simp add: numbering_update)
  with c have "Inr s' = with_seqs c (run_plan e (numbering e path start len ?d keys) s1')"
    by (simp add: s1 run_plan_seqs)
  moreover have "run_plan e (numbering e path start len ?d (key # keys)) s
                 = run_plan e (numbering e path start len ?d keys) s1'"
    using r1 by (simp add: numbering_def run_plan_append)
  ultimately show ?case by auto
qed

lemma renumber_seqs_state:
  assumes "distinct keys"
  shows "\<exists>j c. state_of (renumber_seqs e path start len keys s)
               = (state_of (run_plan e (take j (numbering e path start len (seqs_data_dict s) keys)) s))
                   \<lparr>seqs_data_dict := c\<rparr>"
  using assms
proof (induction keys arbitrary: s)
  case Nil
  show ?case by (intro exI [of _ 0] exI [of _ "seqs_data_dict s"]) simp
next
  case (Cons key keys)
  let ?d = "seqs_data_dict s"
  let ?u = "AList.update key (sort_key int_key (bucket ?d key)) ?d"
  let ?p = "seq_plan e path start len ?d key"
  from Cons.prems have d: "distinct keys" and nk: "key \<notin> set keys" by auto
  show ?case
  proof (cases "find (\<lambda>number. python_int number = None) (bucket ?d key)")
    case (Some number)
    then have "state_of (renumber_seqs e path start len (key # keys) s) = s"
      by (simp add: renumber_seq_cases)
    then show ?thesis by (intro exI [of _ 0] exI [of _ ?d]) simp
  next
    case None
    show ?thesis
    proof (cases "run_plan e ?p s")
      case (Inl z)
      with None have "state_of (renumber_seqs e path start len (key # keys) s)
                      = (snd z)\<lparr>seqs_data_dict := ?u\<rparr>"
        by (cases z) (simp add: renumber_seq_cases)
      moreover from Inl have "state_of (run_plan e (take (length ?p)
                  (numbering e path start len ?d (key # keys))) s) = snd z"
        by (cases z) (simp add: numbering_def)
      ultimately show ?thesis by metis
    next
      case (Inr s1')
      let ?s1 = "s1'\<lparr>seqs_data_dict := ?u\<rparr>"
      from None Inr have step: "renumber_seqs e path start len (key # keys) s
                                = renumber_seqs e path start len keys ?s1"
        by (simp add: renumber_seq_cases)
      from Cons.IH [OF d, of ?s1] obtain j c where
        jc: "state_of (renumber_seqs e path start len keys ?s1)
             = (state_of (run_plan e (take j (numbering e path start len (seqs_data_dict ?s1) keys))
                  ?s1))\<lparr>seqs_data_dict := c\<rparr>" by blast
      have n: "numbering e path start len (seqs_data_dict ?s1) keys
               = numbering e path start len ?d keys"
        using nk by (simp add: numbering_update)
      have "state_of (run_plan e (take j (numbering e path start len ?d keys)) ?s1)
              \<lparr>seqs_data_dict := c\<rparr>
            = state_of (run_plan e (take j (numbering e path start len ?d keys)) s1')
              \<lparr>seqs_data_dict := c\<rparr>"
        by (cases "run_plan e (take j (numbering e path start len ?d keys)) s1'")
           (auto simp: run_plan_seqs)
      moreover have "run_plan e (take (length ?p + j) (numbering e path start len ?d (key # keys))) s
                     = run_plan e (take j (numbering e path start len ?d keys)) s1'"
        using Inr by (simp add: numbering_def run_plan_append)
      ultimately show ?thesis using jc n step by metis
    qed
  qed
qed

subsection \<open>The plan of the second phase is separate\<close>

lemma frame_pairs_length [simp]: "length (frame_pairs e path len n x toks k) = length toks"
  by (induction toks arbitrary: k) auto

lemma frame_pairs_nth:
  "i < length toks \<Longrightarrow>
   frame_pairs e path len n x toks k ! i
   = (tmp_path e path n (toks ! i) x, new_path path n (k + int i) len x)"
proof (induction toks arbitrary: k i)
  case Nil
  then show ?case by simp
next
  case (Cons t toks)
  show ?case
  proof (cases i)
    case 0
    then show ?thesis by simp
  next
    case (Suc j)
    with Cons.prems have "j < length toks" by simp
    from Cons.IH [OF this, of "k + 1"] Suc show ?thesis by (simp add: add.assoc)
  qed
qed

lemma frame_pairs_member:
  "(a, b) \<in> set (frame_pairs e path len n x toks k) \<longleftrightarrow>
   (\<exists>i<length toks. a = tmp_path e path n (toks ! i) x \<and> b = new_path path n (k + int i) len x)"
proof
  assume "(a, b) \<in> set (frame_pairs e path len n x toks k)"
  then obtain i where "i < length toks" "frame_pairs e path len n x toks k ! i = (a, b)"
    by (auto simp: in_set_conv_nth)
  then show "\<exists>i<length toks. a = tmp_path e path n (toks ! i) x
               \<and> b = new_path path n (k + int i) len x"
    by (auto simp: frame_pairs_nth)
next
  assume "\<exists>i<length toks. a = tmp_path e path n (toks ! i) x
               \<and> b = new_path path n (k + int i) len x"
  then obtain i where i: "i < length toks"
    "(a, b) = frame_pairs e path len n x toks k ! i" by (auto simp: frame_pairs_nth)
  then show "(a, b) \<in> set (frame_pairs e path len n x toks k)"
    by (metis frame_pairs_length nth_mem)
qed

lemma tmp_path_same_key: "tmp_path e path n t x = tmp_path e path n t' x \<longleftrightarrow> t = t'"
  by (simp add: tmp_path_def)

lemma new_path_same_key: "new_path path n k len x = new_path path n k' len x \<longleftrightarrow> k = k'"
  using zfill_str_inj by (auto simp: new_path_def)

lemma tmp_path_not_new_same_key: "tmp_path e path n t x \<noteq> new_path path n k len x"
  using tmp_token_not_padded by (simp add: tmp_path_def new_path_def)

lemma frame_pairs_separate:
  "distinct toks \<Longrightarrow> separate (frame_pairs e path len n x toks k)"
proof (induction toks arbitrary: k)
  case Nil
  then show ?case by simp
next
  case (Cons t toks)
  let ?ps = "frame_pairs e path len n x toks (k + 1)"
  from Cons.prems have d: "distinct toks" and nt: "t \<notin> set toks" by auto
  have 1: "tmp_path e path n t x \<notin> fst ` set ?ps"
  proof
    assume "tmp_path e path n t x \<in> fst ` set ?ps"
    then obtain b where "(tmp_path e path n t x, b) \<in> set ?ps" by force
    then obtain i where "i < length toks" "t = toks ! i"
      by (auto simp: frame_pairs_member tmp_path_same_key)
    with nt show False by simp
  qed
  have 2: "new_path path n k len x \<notin> snd ` set ?ps"
  proof
    assume "new_path path n k len x \<in> snd ` set ?ps"
    then obtain a where "(a, new_path path n k len x) \<in> set ?ps" by force
    then show False by (auto simp: frame_pairs_member new_path_same_key)
  qed
  have 3: "tmp_path e path n t x \<notin> snd ` set ?ps"
  proof
    assume "tmp_path e path n t x \<in> snd ` set ?ps"
    then obtain a where "(a, tmp_path e path n t x) \<in> set ?ps" by force
    then show False by (auto simp: frame_pairs_member tmp_path_not_new_same_key)
  qed
  have 4: "new_path path n k len x \<notin> fst ` set ?ps"
  proof
    assume "new_path path n k len x \<in> fst ` set ?ps"
    then obtain b where "(new_path path n k len x, b) \<in> set ?ps" by force
    then show False
      by (auto simp: frame_pairs_member) (metis tmp_path_not_new_same_key)
  qed
  from Cons.IH [OF d, of "k + 1"] 1 2 3 4 tmp_path_not_new_same_key [of e path n t x k len]
  show ?case by (simp add: separate_Cons_iff)
qed

lemma seq_plan_member:
  "(a, b) \<in> set (seq_plan e path start len d key) \<longleftrightarrow>
   (\<exists>i<length (bucket d key).
      a = tmp_path e path (fst key) (sort_key int_key (bucket d key) ! i) (snd key)
      \<and> b = new_path path (fst key) (start + int i) len (snd key))"
  by (simp add: seq_plan_def frame_pairs_member)

lemma seq_plan_shape:
  "(a, b) \<in> set (seq_plan e path start len d key) \<Longrightarrow>
   \<exists>t k. t \<in> set (bucket d key) \<and> a = tmp_path e path (fst key) t (snd key)
         \<and> b = new_path path (fst key) k len (snd key)"
proof -
  assume "(a, b) \<in> set (seq_plan e path start len d key)"
  then obtain i where i: "i < length (bucket d key)"
    "a = tmp_path e path (fst key) (sort_key int_key (bucket d key) ! i) (snd key)"
    "b = new_path path (fst key) (start + int i) len (snd key)"
    by (auto simp: seq_plan_member)
  from i(1) have "sort_key int_key (bucket d key) ! i \<in> set (sort_key int_key (bucket d key))"
    by (intro nth_mem) simp
  with i show ?thesis by auto
qed

lemma numbering_member:
  "(a, b) \<in> set (numbering e path start len d keys) \<longleftrightarrow>
   (\<exists>key \<in> set keys. (a, b) \<in> set (seq_plan e path start len d key))"
  by (auto simp: numbering_def)

lemma numbering_separate:
  assumes "distinct keys"
    and "\<forall>key \<in> set keys. CHR ''.'' \<notin> set (fst key) \<and> CHR ''.'' \<notin> set (snd key)
           \<and> distinct (bucket d key)"
  shows "separate (numbering e path start len d keys)"
  using assms
proof (induction keys)
  case Nil
  then show ?case by (simp add: numbering_def)
next
  case (Cons key keys)
  let ?p = "seq_plan e path start len d key" and ?q = "numbering e path start len d keys"
  from Cons.prems have d: "distinct keys" and nk: "key \<notin> set keys"
    and k: "CHR ''.'' \<notin> set (fst key)" "CHR ''.'' \<notin> set (snd key)" "distinct (bucket d key)"
    and ks: "\<forall>key \<in> set keys. CHR ''.'' \<notin> set (fst key) \<and> CHR ''.'' \<notin> set (snd key)
           \<and> distinct (bucket d key)" by auto
  have sp: "separate ?p" using k(3) by (simp add: seq_plan_def frame_pairs_separate)
  have sq: "separate ?q" by (rule Cons.IH [OF d ks])
  have shape_p: "\<And>a b. (a, b) \<in> set ?p \<Longrightarrow>
      \<exists>t j. a = tmp_path e path (fst key) t (snd key) \<and> b = new_path path (fst key) j len (snd key)"
    using seq_plan_shape by blast
  have shape_q: "\<And>a b. (a, b) \<in> set ?q \<Longrightarrow>
      \<exists>key' t j. key' \<in> set keys \<and> a = tmp_path e path (fst key') t (snd key')
         \<and> b = new_path path (fst key') j len (snd key')"
    using seq_plan_shape by (fastforce simp: numbering_member)
  have other: "\<And>key'. key' \<in> set keys \<Longrightarrow> key' \<noteq> key
       \<and> CHR ''.'' \<notin> set (fst key') \<and> CHR ''.'' \<notin> set (snd key')"
    using nk ks by auto
  have 1: "fst ` set ?p \<inter> fst ` set ?q = {}"
  proof (rule ccontr)
    assume "\<not> ?thesis"
    then obtain a b b' where "(a, b) \<in> set ?p" "(a, b') \<in> set ?q" by force
    with shape_p shape_q obtain t key' t' where key': "key' \<in> set keys"
      and "tmp_path e path (fst key) t (snd key) = tmp_path e path (fst key') t' (snd key')"
      by metis
    from tmp_path_inj [OF this(2)] k other [OF key'] show False
      by (simp add: prod_eq_iff)
  qed
  have 2: "snd ` set ?p \<inter> snd ` set ?q = {}"
  proof (rule ccontr)
    assume "\<not> ?thesis"
    then obtain a b a' where "(a, b) \<in> set ?p" "(a', b) \<in> set ?q" by force
    with shape_p shape_q obtain j key' j' where key': "key' \<in> set keys"
      and "new_path path (fst key) j len (snd key) = new_path path (fst key') j' len (snd key')"
      by metis
    from new_path_inj [OF this(2)] k other [OF key'] show False
      by (simp add: prod_eq_iff)
  qed
  have 3: "fst ` set ?p \<inter> snd ` set ?q = {}"
  proof (rule ccontr)
    assume "\<not> ?thesis"
    then obtain a b a' where "(a, b) \<in> set ?p" "(a', a) \<in> set ?q" by force
    with shape_p shape_q obtain t key' j' where key': "key' \<in> set keys"
      and "tmp_path e path (fst key) t (snd key) = new_path path (fst key') j' len (snd key')"
      by metis
    with tmp_path_not_new k other [OF key'] show False by blast
  qed
  have 4: "snd ` set ?p \<inter> fst ` set ?q = {}"
  proof (rule ccontr)
    assume "\<not> ?thesis"
    then obtain a b b' where "(a, b) \<in> set ?p" "(b, b') \<in> set ?q" by force
    with shape_p shape_q obtain j key' t' where key': "key' \<in> set keys"
      and "tmp_path e path (fst key') t' (snd key') = new_path path (fst key) j len (snd key)"
      by metis
    with tmp_path_not_new k other [OF key'] show False by blast
  qed
  have "numbering e path start len d (key # keys) = ?p @ ?q" by (simp add: numbering_def)
  with sp sq 1 2 3 4 show ?case by (simp add: separate_append)
qed

subsection \<open>Listings and buckets\<close>

lemma child_name_Some:
  "child_name path k = Some n \<longleftrightarrow> k = path @ ''/'' @ n \<and> n \<noteq> [] \<and> CHR ''/'' \<notin> set n"
proof
  assume "child_name path k = Some n"
  then have t: "take (length path + 1) k = path @ ''/''" and d: "drop (length path + 1) k = n"
    and n: "n \<noteq> []" "CHR ''/'' \<notin> set n"
    by (auto simp: child_name_def Let_def split: if_splits)
  have "k = take (length path + 1) k @ drop (length path + 1) k" by simp
  with t d n show "k = path @ ''/'' @ n \<and> n \<noteq> [] \<and> CHR ''/'' \<notin> set n" by simp
next
  assume "k = path @ ''/'' @ n \<and> n \<noteq> [] \<and> CHR ''/'' \<notin> set n"
  then show "child_name path k = Some n" by (simp add: child_name_def)
qed

lemma map_filter_member:
  "y \<in> set (List.map_filter g xs) \<longleftrightarrow> (\<exists>x \<in> set xs. g x = Some y)"
  by (induction xs) (auto split: option.splits)

lemma dir_entries_member:
  "n \<in> set (dir_entries f path) \<longleftrightarrow>
   map_of f (path @ ''/'' @ n) \<noteq> None \<and> n \<noteq> [] \<and> CHR ''/'' \<notin> set n"
proof -
  have "n \<in> set (dir_entries f path) \<longleftrightarrow> (\<exists>k \<in> set (map fst f). child_name path k = Some n)"
    by (simp add: dir_entries_def map_filter_member del: set_map)
  also have "\<dots> \<longleftrightarrow> path @ ''/'' @ n \<in> set (map fst f) \<and> n \<noteq> [] \<and> CHR ''/'' \<notin> set n"
    by (auto simp: child_name_Some)
  also have "path @ ''/'' @ n \<in> set (map fst f) \<longleftrightarrow> map_of f (path @ ''/'' @ n) \<noteq> None"
    by (simp add: map_of_eq_None_iff)
  finally show ?thesis .
qed

lemma dir_entries_distinct: "distinct (map fst f) \<Longrightarrow> distinct (dir_entries f path)"
proof -
  assume d: "distinct (map fst f)"
  have "inj_on (the \<circ> child_name path) {k \<in> set (map fst f). child_name path k \<noteq> None}"
  proof (rule inj_onI)
    fix k k' assume "k \<in> {k \<in> set (map fst f). child_name path k \<noteq> None}"
      "k' \<in> {k \<in> set (map fst f). child_name path k \<noteq> None}"
      "(the \<circ> child_name path) k = (the \<circ> child_name path) k'"
    then obtain n where "child_name path k = Some n" "child_name path k' = Some n" by auto
    then show "k = k'" by (simp add: child_name_Some)
  qed
  with d show ?thesis
    by (simp add: dir_entries_def List.map_filter_def distinct_map)
qed

lemma tokens_of_member:
  "t \<in> set (tokens_of key files) \<longleftrightarrow>
   (\<exists>entry \<in> set files. seq_parts entry = Some (fst key, t, snd key))"
  by (induction files) (auto simp: tokens_of_def split: option.splits if_splits)

lemma distinct_tokens_of: "distinct files \<Longrightarrow> distinct (tokens_of key files)"
proof (induction files)
  case Nil
  then show ?case by (simp add: tokens_of_def)
next
  case (Cons entry files)
  have c: "tokens_of key (entry # files) = tokens_of key [entry] @ tokens_of key files"
    by (simp add: tokens_of_def)
  have "\<And>t. t \<in> set (tokens_of key [entry]) \<Longrightarrow> t \<notin> set (tokens_of key files)"
  proof
    fix t assume "t \<in> set (tokens_of key [entry])" and "t \<in> set (tokens_of key files)"
    then obtain entry' where "entry' \<in> set files"
      "seq_parts entry = Some (fst key, t, snd key)" "seq_parts entry' = Some (fst key, t, snd key)"
      by (auto simp: tokens_of_member)
    then have "entry \<in> set files" by (simp add: seq_parts_Some)
    with Cons.prems show False by simp
  qed
  moreover have "distinct (tokens_of key [entry])"
    by (simp add: tokens_of_def split: option.splits)
  ultimately show ?case using Cons by (auto simp: c)
qed

lemma buckets_bucket: "bucket (buckets f path files) key = tokens_of key (staged f path files)"
  by (simp add: buckets_def bucket_grouped) (simp add: bucket_def)

lemma buckets_distinct: "distinct (map fst (buckets f path files))"
  by (simp add: buckets_def distinct_grouped)

lemma buckets_keys:
  "key \<in> set (map fst (buckets f path files)) \<longleftrightarrow>
   (\<exists>entry \<in> set files. \<exists>t. is_seq_file f path entry \<and> seq_parts entry = Some (fst key, t, snd key))"
proof -
  have "key \<in> set (map fst (buckets f path files)) \<longleftrightarrow>
        (\<exists>entry \<in> set (staged f path files). \<exists>p. seq_parts entry = Some p
            \<and> key = (fst p, snd (snd p)))"
    unfolding buckets_def keys_grouped by simp
  also have "\<dots> \<longleftrightarrow> (\<exists>entry \<in> set files. \<exists>t. is_seq_file f path entry
                         \<and> seq_parts entry = Some (fst key, t, snd key))"
    by (auto simp: staged_def)
  finally show ?thesis .
qed

lemma final_plan_separate:
  assumes "distinct files"
  shows "separate (final_plan e path start len f files)"
  unfolding final_plan_def
proof (rule numbering_separate [OF buckets_distinct], rule ballI)
  fix key assume "key \<in> set (map fst (buckets f path files))"
  then obtain entry t where "seq_parts entry = Some (fst key, t, snd key)"
    by (auto simp: buckets_keys simp del: set_map)
  then have "CHR ''.'' \<notin> set (fst key)" "CHR ''.'' \<notin> set (snd key)"
    by (simp_all add: seq_parts_Some)
  moreover have "distinct (bucket (buckets f path files) key)"
    using assms by (simp add: buckets_bucket distinct_tokens_of staged_def)
  ultimately show "CHR ''.'' \<notin> set (fst key) \<and> CHR ''.'' \<notin> set (snd key)
                   \<and> distinct (bucket (buckets f path files) key)" by simp
qed

lemma final_plan_sources:
  assumes "distinct files" and "(a, b) \<in> set (final_plan e path start len f files)"
  shows "\<exists>entry n t x. entry \<in> set files \<and> is_seq_file f path entry
           \<and> seq_parts entry = Some (n, t, x) \<and> a = tmp_path e path n t x"
proof -
  from assms(2) obtain key where "key \<in> set (map fst (buckets f path files))"
    "(a, b) \<in> set (seq_plan e path start len (buckets f path files) key)"
    by (auto simp: final_plan_def numbering_member simp del: set_map)
  from seq_plan_shape [OF this(2)] obtain t where
    t: "t \<in> set (tokens_of key (staged f path files))" "a = tmp_path e path (fst key) t (snd key)"
    by (auto simp: buckets_bucket)
  then obtain entry where "entry \<in> set (staged f path files)"
    "seq_parts entry = Some (fst key, t, snd key)" by (auto simp: tokens_of_member)
  with t(2) show ?thesis by (auto simp: staged_def)
qed

subsection \<open>Both phases together\<close>

lemma trace_of_length [simp]: "length (trace_of m ps) = length ps"
  by (induction ps arbitrary: m) auto

lemma run_plan_trace:
  assumes "separate ps" and "\<forall>a \<in> fst ` set ps. os_path_isfile (fs s) a"
  shows "\<exists>k. trace (state_of (run_plan e ps s)) = trace s @ take k (trace_of (map_of (fs s)) ps)"
proof (cases "run_plan e ps s")
  case (Inl z)
  obtain x s' where z: "z = (x, s')" by (cases z)
  from run_plan_Inl [OF assms Inl [unfolded z]] obtain k where
    "trace s' = trace s @ trace_of (map_of (fs s)) (take (Suc k) ps)" by blast
  with Inl z show ?thesis by (auto simp: trace_of_take)
next
  case (Inr s')
  from run_plan_Inr [OF assms Inr]
  have "trace (state_of (run_plan e ps s))
        = trace s @ take (length ps) (trace_of (map_of (fs s)) ps)"
    using Inr by simp
  then show ?thesis by (rule exI)
qed

lemma final_plan_sources_staged:
  assumes "distinct files" and "run_plan e (staging e path (fs s) files) s = Inr s1"
  shows "\<forall>a \<in> fst ` set (final_plan e path start len (fs s) files). os_path_isfile (fs s1) a"
proof
  fix a assume "a \<in> fst ` set (final_plan e path start len (fs s) files)"
  then obtain b where "(a, b) \<in> set (final_plan e path start len (fs s) files)" by force
  from final_plan_sources [OF assms(1) this] obtain entry n t x where
    en: "entry \<in> set files" "is_seq_file (fs s) path entry" "seq_parts entry = Some (n, t, x)"
    "a = tmp_path e path n t x" by blast
  then have m: "(path @ ''/'' @ entry, a) \<in> set (staging e path (fs s) files)"
    by (auto simp: staging_member)
  have sep: "separate (staging e path (fs s) files)" by (rule staging_separate [OF assms(1)])
  have src: "\<forall>a \<in> fst ` set (staging e path (fs s) files). os_path_isfile (fs s) a"
    using staging_sources by blast
  from run_plan_Inr [OF sep src assms(2)] moved_dst [OF sep m]
  have "map_of (fs s1) a = map_of (fs s) (path @ ''/'' @ entry)" by simp
  with en(2) show "os_path_isfile (fs s1) a" by (simp add: is_seq_file_def isfile_Some)
qed

lemma try_block_stage_Inr:
  assumes "distinct files"
    and "\<forall>entry \<in> set files. map_of (fs s) (path @ ''/'' @ entry) \<noteq> None"
    and "seqs_data_dict s = []"
    and "stage_files e path files s = Inr s1"
  shows "\<exists>s1'. run_plan e (staging e path (fs s) files) s = Inr s1'
           \<and> s1 = s1'\<lparr>seqs_data_dict := buckets (fs s) path files\<rparr>"
proof -
  from stage_files_plan [OF assms(1,2), of e] assms(3,4) obtain c where
    c: "Inr s1 = with_seqs c (run_plan e (staging e path (fs s) files) s)"
    and g: "c = buckets (fs s) path files" by (auto simp: buckets_def)
  from c g show ?thesis
    by (cases "run_plan e (staging e path (fs s) files) s") (auto simp: with_seqs_def)
qed

lemma try_block_Inr:
  assumes d: "distinct files"
    and ex: "\<forall>entry \<in> set files. map_of (fs s) (path @ ''/'' @ entry) \<noteq> None"
    and em: "seqs_data_dict s = []"
    and r: "try_block e path start len files s = Inr s'"
  shows "map_of (fs s') = moved (moved (map_of (fs s)) (staging e path (fs s) files))
                            (final_plan e path start len (fs s) files)
         \<and> trace s' = trace s @ trace_of (map_of (fs s)) (staging e path (fs s) files)
               @ trace_of (moved (map_of (fs s)) (staging e path (fs s) files))
                   (final_plan e path start len (fs s) files)
         \<and> logs s' = logs s"
proof -
  let ?P1 = "staging e path (fs s) files" and ?P2 = "final_plan e path start len (fs s) files"
  let ?B = "buckets (fs s) path files"
  from r obtain s1 where st: "stage_files e path files s = Inr s1"
    and rs: "renumber_seqs e path start len (map fst (seqs_data_dict s1)) s1 = Inr s'"
    by (auto simp: try_block_def split: sum.splits)
  from try_block_stage_Inr [OF d ex em st] obtain s1' where
    r1: "run_plan e ?P1 s = Inr s1'" and s1: "s1 = s1'\<lparr>seqs_data_dict := ?B\<rparr>" by blast
  have sep1: "separate ?P1" by (rule staging_separate [OF d])
  have src1: "\<forall>a \<in> fst ` set ?P1. os_path_isfile (fs s) a" using staging_sources by blast
  note f1 = run_plan_Inr [OF sep1 src1 r1]
  from rs s1 have rs': "renumber_seqs e path start len (map fst ?B) s1 = Inr s'" by simp
  from renumber_seqs_Inr [OF buckets_distinct rs'] s1 obtain c where
    "Inr s' = with_seqs c (run_plan e ?P2 s1)" by (auto simp: final_plan_def)
  then have "Inr s' = with_seqs c (run_plan e ?P2 s1')"
    by (simp add: s1 run_plan_seqs)
  then obtain s2 where r2: "run_plan e ?P2 s1' = Inr s2" and s': "s' = s2\<lparr>seqs_data_dict := c\<rparr>"
    by (cases "run_plan e ?P2 s1'") (auto simp: with_seqs_def)
  have sep2: "separate ?P2" by (rule final_plan_separate [OF d])
  note f2 = run_plan_Inr [OF sep2 final_plan_sources_staged [OF d r1] r2]
  from f1 f2 s' show ?thesis by simp
qed

lemma try_block_trace:
  assumes d: "distinct files"
    and ex: "\<forall>entry \<in> set files. map_of (fs s) (path @ ''/'' @ entry) \<noteq> None"
    and em: "seqs_data_dict s = []"
  shows "\<exists>k. trace (state_of (try_block e path start len files s))
             = trace s @ take k (trace_of (map_of (fs s)) (staging e path (fs s) files)
                 @ trace_of (moved (map_of (fs s)) (staging e path (fs s) files))
                     (final_plan e path start len (fs s) files))"
proof -
  let ?P1 = "staging e path (fs s) files" and ?P2 = "final_plan e path start len (fs s) files"
  let ?B = "buckets (fs s) path files"
  let ?T1 = "trace_of (map_of (fs s)) ?P1"
  let ?T2 = "trace_of (moved (map_of (fs s)) ?P1) ?P2"
  have sep1: "separate ?P1" by (rule staging_separate [OF d])
  have src1: "\<forall>a \<in> fst ` set ?P1. os_path_isfile (fs s) a" using staging_sources by blast
  show ?thesis
  proof (cases "stage_files e path files s")
    case (Inl z)
    from stage_files_plan [OF d ex, of e] obtain c where
      "stage_files e path files s = with_seqs c (run_plan e ?P1 s)" by blast
    with Inl have "trace (state_of (try_block e path start len files s))
                   = trace (state_of (run_plan e ?P1 s))"
      by (cases "run_plan e ?P1 s") (auto simp: try_block_def with_seqs_def)
    with run_plan_trace [OF sep1 src1, of e] obtain k where
      "trace (state_of (try_block e path start len files s)) = trace s @ take k ?T1" by auto
    then have "trace (state_of (try_block e path start len files s))
               = trace s @ take (min k (length ?T1)) (?T1 @ ?T2)" by (simp add: min_def)
    then show ?thesis by blast
  next
    case (Inr s1)
    from try_block_stage_Inr [OF d ex em Inr] obtain s1' where
      r1: "run_plan e ?P1 s = Inr s1'" and s1: "s1 = s1'\<lparr>seqs_data_dict := ?B\<rparr>" by blast
    note f1 = run_plan_Inr [OF sep1 src1 r1]
    from renumber_seqs_state [OF buckets_distinct, of e path start len "fs s" path files s1]
    obtain j c where
      "state_of (renumber_seqs e path start len (map fst ?B) s1)
       = (state_of (run_plan e (take j ?P2) s1))\<lparr>seqs_data_dict := c\<rparr>"
      by (auto simp: final_plan_def s1)
    then have t: "trace (state_of (renumber_seqs e path start len (map fst ?B) s1))
                  = trace (state_of (run_plan e (take j ?P2) s1'))"
      by (cases "run_plan e (take j ?P2) s1'") (auto simp: s1 run_plan_seqs)
    have sep2: "separate (take j ?P2)" by (rule separate_take [OF final_plan_separate [OF d]])
    have src2: "\<forall>a \<in> fst ` set (take j ?P2). os_path_isfile (fs s1') a"
      using final_plan_sources_staged [OF d r1] by (auto dest: in_set_takeD)
    from run_plan_trace [OF sep2 src2, of e] obtain k where
      "trace (state_of (run_plan e (take j ?P2) s1'))
       = trace s1' @ take k (trace_of (map_of (fs s1')) (take j ?P2))" by blast
    with t f1 have "trace (state_of (renumber_seqs e path start len (map fst ?B) s1))
                    = trace s @ ?T1 @ take (min k j) ?T2"
      by (simp add: trace_of_take min.commute)
    moreover have "try_block e path start len files s
                   = renumber_seqs e path start len (map fst ?B) s1"
      using Inr by (simp add: try_block_def s1)
    ultimately have "trace (state_of (try_block e path start len files s))
                     = trace s @ take (length ?T1 + min k j) (?T1 @ ?T2)" by simp
    then show ?thesis by blast
  qed
qed

subsection \<open>Logging, and the position of a token after sorting\<close>

lemma state_of_with [simp]:
  "logs (state_of (with_seqs c r)) = logs (state_of r)"
  "trace (state_of (with_seqs c r)) = trace (state_of r)"
  "fs (state_of (with_seqs c r)) = fs (state_of r)"
  "logs (state_of (with_dict d r)) = logs (state_of r)"
  "trace (state_of (with_dict d r)) = trace (state_of r)"
  "fs (state_of (with_dict d r)) = fs (state_of r)"
  by (cases r; simp add: with_seqs_def with_dict_def state_of_def)+

lemma rename_call_logs: "logs (state_of (rename_call e a b s)) = logs s"
  by (simp add: rename_call_def Let_def state_of_def split: sum.splits)

lemma run_plan_logs: "logs (state_of (run_plan e ps s)) = logs s"
proof (induction ps arbitrary: s)
  case Nil
  then show ?case by simp
next
  case (Cons p ps)
  obtain a b where p: "p = (a, b)" by (cases p)
  show ?case
  proof (cases "rename_call e a b s")
    case (Inl z)
    with rename_call_logs [of e a b s] show ?thesis by (simp add: p state_of_def)
  next
    case (Inr s1)
    with rename_call_logs [of e a b s] Cons.IH show ?thesis by (simp add: p)
  qed
qed

lemma stage_file_logs: "logs (state_of (stage_file e path entry s)) = logs s"
proof (cases "is_seq_file (fs s) path entry")
  case True
  let ?s0 = "s\<lparr>seqs_data_dict := group_file (seqs_data_dict s) entry\<rparr>"
  have "logs (state_of (rename_call e (path @ ''/'' @ entry) (snd (stage_pair e path entry)) ?s0))
        = logs s"
    by (simp add: rename_call_logs)
  then show ?thesis
    by (cases "rename_call e (path @ ''/'' @ entry) (snd (stage_pair e path entry)) ?s0")
       (simp_all add: stage_file_seq [OF True] state_of_def)
next
  case False
  then show ?thesis by (simp add: stage_file_skip)
qed

lemma stage_files_logs: "logs (state_of (stage_files e path files s)) = logs s"
proof (induction files arbitrary: s)
  case Nil
  then show ?case by simp
next
  case (Cons entry files)
  show ?case
  proof (cases "stage_file e path entry s")
    case (Inl z)
    with stage_file_logs [of e path entry s] show ?thesis by (simp add: state_of_def)
  next
    case (Inr s1)
    with stage_file_logs [of e path entry s] Cons.IH show ?thesis by simp
  qed
qed

lemma renumber_seq_logs: "logs (state_of (renumber_seq e path start len key s)) = logs s"
  by (simp add: renumber_seq_cases run_plan_logs split: option.splits)

lemma renumber_seqs_logs: "logs (state_of (renumber_seqs e path start len keys s)) = logs s"
proof (induction keys arbitrary: s)
  case Nil
  then show ?case by simp
next
  case (Cons key keys)
  show ?case
  proof (cases "renumber_seq e path start len key s")
    case (Inl z)
    with renumber_seq_logs [of e path start len key s] show ?thesis by (simp add: state_of_def)
  next
    case (Inr s1)
    with renumber_seq_logs [of e path start len key s] Cons.IH show ?thesis by simp
  qed
qed

lemma try_block_logs: "logs (state_of (try_block e path start len files s)) = logs s"
proof (cases "stage_files e path files s")
  case (Inl z)
  with stage_files_logs [of e path files s] show ?thesis
    by (simp add: try_block_def state_of_def)
next
  case (Inr s1)
  with stage_files_logs [of e path files s] renumber_seqs_logs show ?thesis
    by (simp add: try_block_def)
qed

lemma restore_original_names_logs:
  "logs (state_of (restore_original_names e d s)) = logs s"
  by (simp add: restore_original_names_plan run_plan_logs)

lemma renumber_files_quiet:
  assumes "renumber_files e path start len s = Inr s'" and "logs s' = logs s"
  shows "try_block e path start len (dir_entries (fs s) path)
           (s\<lparr>renaming_dict := [], seqs_data_dict := []\<rparr>) = Inr s'"
proof -
  let ?s0 = "s\<lparr>renaming_dict := [], seqs_data_dict := []\<rparr>"
  let ?files = "dir_entries (fs s) path"
  from assms obtain files where "os_listdir e (fs s) path = Inr files"
    by (auto simp: renumber_files_def logger_warning_def split: if_splits sum.splits)
  then have l: "os_listdir e (fs s) path = Inr ?files" by (simp add: os_listdir_Inr)
  note rf = renumber_files_listed [OF l, of start len]
  from assms have c: "?files \<noteq> []"
    by (auto simp: rf logger_warning_def split: if_splits)
  show ?thesis
  proof (cases "try_block e path start len ?files ?s0")
    case (Inr s1)
    with assms(1) c show ?thesis by (simp add: rf)
  next
    case (Inl z)
    obtain x sf where z: "z = (x, sf)" by (cases z)
    let ?sl = "logger_error ''Skipping directory...''
                 (logger_error_exc x (logger_error (''Error found renaming files on '' @ path) sf))"
    from Inl z assms(1) c have "restore_original_names e (renaming_dict sf) ?sl = Inr s'"
      by (simp add: rf)
    with restore_original_names_logs [of e "renaming_dict sf" ?sl]
    have "logs s' = logs ?sl" by simp
    moreover from try_block_logs [of e path start len ?files ?s0] Inl z
    have "logs sf = logs s" by simp
    ultimately have "logs s' = logs s @ [Error (''Error found renaming files on '' @ path),
                        ErrorExc x, Error ''Skipping directory...'']"
      by (simp add: logger_error_def logger_error_exc_def)
    with assms(2) show ?thesis by simp
  qed
qed

lemma filter_below_sorted:
  "sorted_wrt (\<lambda>a b. f a < f b) ys \<Longrightarrow> i < length ys \<Longrightarrow>
   filter (\<lambda>y. f y < (f (ys ! i) :: int)) ys = take i ys"
proof (induction ys arbitrary: i)
  case Nil
  then show ?case by simp
next
  case (Cons y ys)
  show ?case
  proof (cases i)
    case 0
    with Cons.prems show ?thesis by (auto simp: filter_empty_conv dest: less_imp_not_less)
  next
    case (Suc j)
    with Cons.prems have j: "j < length ys" and s: "sorted_wrt (\<lambda>a b. f a < f b) ys"
      and y: "f y < f (ys ! j)" by auto
    from Cons.IH [OF s j] y Suc show ?thesis by simp
  qed
qed

lemma sort_key_rank:
  assumes "distinct xs" and "inj_on f (set xs)" and "x \<in> set xs"
  shows "length (filter (\<lambda>y. f y < (f x :: int)) xs) < length xs
         \<and> sort_key f xs ! length (filter (\<lambda>y. f y < f x) xs) = x"
proof -
  let ?ys = "sort_key f xs"
  have "sorted (map f ?ys)" by simp
  moreover have "distinct (map f ?ys)" using assms(1,2) by (simp add: distinct_map)
  ultimately have "sorted_wrt (<) (map f ?ys)" by (simp add: strict_sorted_iff)
  then have sw: "sorted_wrt (\<lambda>a b. f a < f b) ?ys" by (simp add: sorted_wrt_map)
  from assms(3) obtain i where i: "i < length ?ys" "?ys ! i = x"
    by (metis in_set_conv_nth set_sort)
  from filter_below_sorted [OF sw i(1)] i have "length (filter (\<lambda>y. f y < f x) ?ys) = i"
    by simp
  moreover have "length (filter (\<lambda>y. f y < f x) ?ys) = length (filter (\<lambda>y. f y < f x) xs)"
    by (simp add: filter_sort)
  ultimately show ?thesis using i by simp
qed

subsection \<open>Where a renumbered file ends up\<close>

lemma renumber_seqs_ints:
  assumes "distinct keys" and "renumber_seqs e path start len keys s = Inr s'"
    and "key \<in> set keys"
  shows "list_all (\<lambda>t. python_int t \<noteq> None) (bucket (seqs_data_dict s) key)"
  using assms
proof (induction keys arbitrary: s)
  case Nil
  then show ?case by simp
next
  case (Cons k keys)
  let ?d = "seqs_data_dict s"
  from Cons.prems(2) obtain s1 where 1: "renumber_seq e path start len k s = Inr s1"
    and 2: "renumber_seqs e path start len keys s1 = Inr s'"
    by (auto split: sum.splits)
  from 1 have f: "find (\<lambda>number. python_int number = None) (bucket ?d k) = None"
    and s1: "seqs_data_dict s1 = AList.update k (sort_key int_key (bucket ?d k)) ?d"
    by (auto simp: renumber_seq_cases with_seqs_def split: option.splits sum.splits)
  show ?case
  proof (cases "key = k")
    case True
    with f show ?thesis by (simp add: find_None_iff list_all_iff)
  next
    case False
    with Cons.prems have "key \<in> set keys" "distinct keys" by auto
    from Cons.IH [OF this(2) 2 this(1)] False s1 show ?thesis
      by (simp add: bucket_update_other)
  qed
qed

lemma try_block_ints:
  assumes d: "distinct files"
    and ex: "\<forall>entry \<in> set files. map_of (fs s) (path @ ''/'' @ entry) \<noteq> None"
    and em: "seqs_data_dict s = []"
    and r: "try_block e path start len files s = Inr s'"
    and t: "t \<in> set (tokens_of key (staged (fs s) path files))"
  shows "python_int t \<noteq> None"
proof -
  let ?B = "buckets (fs s) path files"
  from r obtain s1 where st: "stage_files e path files s = Inr s1"
    and rs: "renumber_seqs e path start len (map fst (seqs_data_dict s1)) s1 = Inr s'"
    by (auto simp: try_block_def split: sum.splits)
  from try_block_stage_Inr [OF d ex em st] have s1: "seqs_data_dict s1 = ?B" by auto
  from t obtain entry where "entry \<in> set files" "is_seq_file (fs s) path entry"
    "seq_parts entry = Some (fst key, t, snd key)"
    by (auto simp: tokens_of_member staged_def)
  then have "key \<in> set (map fst ?B)" unfolding buckets_keys by blast
  from renumber_seqs_ints [OF buckets_distinct rs [unfolded s1] this] t
  show ?thesis by (simp add: s1 buckets_bucket list_all_iff)
qed

lemma renumbered:
  assumes d: "distinct files"
    and ex: "\<forall>entry \<in> set files. map_of (fs s) (path @ ''/'' @ entry) \<noteq> None"
    and em: "seqs_data_dict s = []"
    and r: "try_block e path start len files s = Inr s'"
    and en: "entry \<in> set files" "is_seq_file (fs s) path entry" "seq_parts entry = Some (n, t, x)"
    and i: "i < length (tokens_of (n, x) (staged (fs s) path files))"
      "sort_key int_key (tokens_of (n, x) (staged (fs s) path files)) ! i = t"
  shows "map_of (fs s') (new_path path n (start + int i) len x)
         = map_of (fs s) (path @ ''/'' @ entry)"
proof -
  let ?P1 = "staging e path (fs s) files" and ?P2 = "final_plan e path start len (fs s) files"
  let ?B = "buckets (fs s) path files"
  from en have m1: "(path @ ''/'' @ entry, tmp_path e path n t x) \<in> set ?P1"
    by (auto simp: staging_member)
  from en have "(n, x) \<in> set (map fst ?B)" unfolding buckets_keys by auto
  moreover from i have "(tmp_path e path n t x, new_path path n (start + int i) len x)
                        \<in> set (seq_plan e path start len ?B (n, x))"
    unfolding seq_plan_member buckets_bucket by auto
  ultimately have m2: "(tmp_path e path n t x, new_path path n (start + int i) len x) \<in> set ?P2"
    unfolding final_plan_def numbering_member by blast
  from try_block_Inr [OF d ex em r]
    moved_dst [OF final_plan_separate [OF d] m2] moved_dst [OF staging_separate [OF d] m1]
  show ?thesis by simp
qed

lemma listing_facts:
  assumes "distinct (map fst f)"
  shows "distinct (dir_entries f path)"
    and "\<forall>entry \<in> set (dir_entries f path). map_of f (path @ ''/'' @ entry) \<noteq> None"
  using assms by (simp_all add: dir_entries_distinct dir_entries_member)

subsection \<open>Claim C4: the numeric order is preserved\<close>

text \<open>
  C4. Let a renumbering of \<open>path\<close> succeed (it returns and logs nothing), and let the frame
  tokens of a bucket have distinct integer values. Then the file whose token has \<open>r\<close>
  tokens of smaller integer value in its bucket is found under the frame number
  \<open>start + r\<close> afterwards: the new numbers follow the numeric order of the tokens, one by
  one from \<open>start\<close>. The order is numeric, not lexical: \<^verbatim>\<open>9\<close> is below \<^verbatim>\<open>10\<close>.
\<close>

theorem C4_numeric_order_is_preserved:
  assumes wf: "distinct (map fst (fs s))"
    and run: "renumber_files e path start len s = Inr s'" and quiet: "logs s' = logs s"
    and en: "entry \<in> set (dir_entries (fs s) path)" "is_seq_file (fs s) path entry"
      "seq_parts entry = Some (name, number, ext)"
    and inj: "inj_on python_int
                (set (tokens_of (name, ext) (staged (fs s) path (dir_entries (fs s) path))))"
  shows "map_of (fs s')
           (new_path path name
              (start + int (length (filter (\<lambda>u. int_key u < int_key number)
                 (tokens_of (name, ext) (staged (fs s) path (dir_entries (fs s) path))))))
              len ext)
         = map_of (fs s) (path @ ''/'' @ entry)
         \<and> int_key ''9'' < int_key ''10''"
proof -
  let ?files = "dir_entries (fs s) path"
  let ?s0 = "s\<lparr>renaming_dict := [], seqs_data_dict := []\<rparr>"
  let ?T = "tokens_of (name, ext) (staged (fs s) path ?files)"
  have d: "distinct ?files"
    and ex: "\<forall>entry \<in> set ?files. map_of (fs ?s0) (path @ ''/'' @ entry) \<noteq> None"
    using listing_facts [OF wf] by simp_all
  have em: "seqs_data_dict ?s0 = []" by simp
  from renumber_files_quiet [OF run quiet]
  have r: "try_block e path start len ?files ?s0 = Inr s'" .
  from en have t: "number \<in> set ?T" by (auto simp: tokens_of_member staged_def)
  have dT: "distinct ?T" using d by (simp add: distinct_tokens_of staged_def)
  have "inj_on int_key (set ?T)"
  proof (rule inj_onI)
    fix a b assume a: "a \<in> set ?T" and b: "b \<in> set ?T" and eq: "int_key a = int_key b"
    from try_block_ints [OF d ex em r, of a "(name, ext)"] a
    obtain ia where ia: "python_int a = Some ia" by auto
    from try_block_ints [OF d ex em r, of b "(name, ext)"] b
    obtain ib where ib: "python_int b = Some ib" by auto
    from eq ia ib have "python_int a = python_int b" by (simp add: int_key_def)
    with inj a b show "a = b" by (simp add: inj_on_def)
  qed
  from sort_key_rank [OF dT this t]
  have i: "length (filter (\<lambda>u. int_key u < int_key number) ?T) < length ?T"
    "sort_key int_key ?T ! length (filter (\<lambda>u. int_key u < int_key number) ?T) = number"
    by simp_all
  from renumbered [OF d ex em r en(1) _ en(3), of _] en(2) i
  have "map_of (fs s')
           (new_path path name
              (start + int (length (filter (\<lambda>u. int_key u < int_key number) ?T))) len ext)
         = map_of (fs s) (path @ ''/'' @ entry)" by simp
  moreover have "int_key ''9'' < int_key ''10''"
    by (simp add: int_key_def python_int_def is_digit_def digits_val_def digit_val_def)
  ultimately show ?thesis by simp
qed

lemmas plan_defs = tokens_of_def staged_def int_key_def

theorem C4_numeric_order_is_preserved_witness:
  "\<exists>s'. renumber_files no_faults ''d'' 1 2 (on_disk three_frames) = Inr s'
         \<and> map_of (fs s') ''d/a.03.png'' = Some (RegFile 10)"
proof -
  let ?s = "on_disk three_frames"
  have "\<exists>s'. renumber_files no_faults ''d'' 1 2 ?s = Inr s' \<and> logs s' = logs ?s"
    by (simp add: run_defs three_frames_def)
  then obtain s' where run: "renumber_files no_faults ''d'' 1 2 ?s = Inr s'"
    and quiet: "logs s' = logs ?s" by blast
  have wf: "distinct (map fst (fs ?s))" by (simp add: on_disk_def three_frames_def)
  have l: "dir_entries (fs ?s) ''d'' = [''a.9.png'', ''a.10.png'', ''a.2.png'']"
    by (simp add: run_defs three_frames_def)
  have en: "''a.10.png'' \<in> set (dir_entries (fs ?s) ''d'')" "is_seq_file (fs ?s) ''d'' ''a.10.png''"
    "seq_parts ''a.10.png'' = Some (''a'', ''10'', ''png'')"
    unfolding l by (simp_all add: run_defs three_frames_def)
  have T: "tokens_of (''a'', ''png'') (staged (fs ?s) ''d'' (dir_entries (fs ?s) ''d''))
           = [''9'', ''10'', ''2'']"
    unfolding l by (simp add: run_defs plan_defs three_frames_def)
  have inj: "inj_on python_int (set (tokens_of (''a'', ''png'')
               (staged (fs ?s) ''d'' (dir_entries (fs ?s) ''d''))))"
    unfolding T by (simp add: run_defs)
  from C4_numeric_order_is_preserved [OF wf run quiet en inj]
  have "map_of (fs s') ''d/a.03.png'' = Some (RegFile 10)"
    unfolding T by (simp add: run_defs plan_defs three_frames_def)
  with run show ?thesis by blast
qed

subsection \<open>Claim C8: buckets do not interfere\<close>



subsection \<open>Rollback after a failure of the first phase\<close>

lemma update_missing: "k \<notin> fst ` set d \<Longrightarrow> AList.update k v d = d @ [(k, v)]"
  by (induction d) auto

lemma recorded_append:
  "distinct (map fst (d @ ps)) \<Longrightarrow> recorded d ps = d @ ps"
proof (induction ps arbitrary: d)
  case Nil
  then show ?case by (simp add: recorded_def)
next
  case (Cons p ps)
  from Cons.prems have "fst p \<notin> fst ` set d" by auto
  then have u: "AList.update (fst p) (snd p) d = d @ [p]" by (simp add: update_missing)
  from Cons.prems have "distinct (map fst ((d @ [p]) @ ps))" by simp
  from Cons.IH [OF this] u show ?case by (simp add: recorded_def)
qed

lemma rename_call_ok:
  "os_rename e a b (fs s) = Inr f \<Longrightarrow>
   rename_call e a b s = Inr (s\<lparr>trace := trace s @ [(a, b, os_path_exists (fs s) b)], fs := f\<rparr>)"
  by (simp add: rename_call_def)

lemma run_plan_ok:
  assumes "separate ps" and "\<forall>a \<in> fst ` set ps. os_path_isfile (fs s) a"
    and "\<forall>p \<in> set ps. \<not> denied e (fst p) (snd p) \<and> map_of (fs s) (snd p) \<noteq> Some Directory"
  shows "\<exists>s'. run_plan e ps s = Inr s'"
  using assms
proof (induction ps arbitrary: s)
  case Nil
  then show ?case by simp
next
  case (Cons p ps)
  obtain a b where p: "p = (a, b)" by (cases p)
  from separate_Cons [OF Cons.prems(1) [unfolded p]] have sep: "separate ps"
    and n: "a \<notin> fst ` set ps" "b \<notin> fst ` set ps" "b \<notin> snd ` set ps" by auto
  from Cons.prems(2) p have fa: "os_path_isfile (fs s) a" by simp
  from Cons.prems(3) p have "\<not> denied e a b" "map_of (fs s) b \<noteq> Some Directory" by auto
  from os_rename_file_ok [OF fa this] obtain f where f: "os_rename e a b (fs s) = Inr f" by blast
  let ?s1 = "s\<lparr>trace := trace s @ [(a, b, os_path_exists (fs s) b)], fs := f\<rparr>"
  let ?s2 = "?s1\<lparr>renaming_dict := AList.update a b (renaming_dict ?s1)\<rparr>"
  from os_rename_file(1) [OF fa f] have m: "map_of (fs ?s2) = shift (map_of (fs s)) a b" by simp
  have src: "\<forall>a' \<in> fst ` set ps. os_path_isfile (fs ?s2) a'"
  proof
    fix a' assume a': "a' \<in> fst ` set ps"
    with n have "a' \<noteq> a" "a' \<noteq> b" by auto
    with m have "map_of (fs ?s2) a' = map_of (fs s) a'" by (simp add: shift_apply)
    from isfile_cong [OF this] Cons.prems(2) a' show "os_path_isfile (fs ?s2) a'" by simp
  qed
  have dst: "\<forall>q \<in> set ps. \<not> denied e (fst q) (snd q) \<and> map_of (fs ?s2) (snd q) \<noteq> Some Directory"
  proof
    fix q assume q: "q \<in> set ps"
    then have "snd q \<in> snd ` set ps" by simp
    with n have "snd q \<noteq> b" by auto
    with m have "map_of (fs ?s2) (snd q) = None \<or> map_of (fs ?s2) (snd q) = map_of (fs s) (snd q)"
      by (simp add: shift_apply)
    with Cons.prems(3) q
    show "\<not> denied e (fst q) (snd q) \<and> map_of (fs ?s2) (snd q) \<noteq> Some Directory" by auto
  qed
  from Cons.IH [OF sep src dst] rename_call_ok [OF f] p show ?case by simp
qed

lemma moved_undo:
  assumes "separate ps" and "\<forall>b \<in> snd ` set ps. m b = None"
  shows "moved (moved m ps) (map (\<lambda>p. (snd p, fst p)) ps) = m"
proof
  fix q
  let ?r = "map (\<lambda>p. (snd p, fst p)) ps"
  have sr: "separate ?r" by (rule separate_swap [OF assms(1)])
  have f: "fst ` set ?r = snd ` set ps" and s: "snd ` set ?r = fst ` set ps" by force+
  show "moved (moved m ps) ?r q = m q"
  proof (cases "q \<in> snd ` set ps")
    case True
    with f have "q \<in> fst ` set ?r" by simp
    from assms(2) True have "m q = None" by (rule bspec)
    with moved_src [OF sr \<open>q \<in> fst ` set ?r\<close>, of "moved m ps"] show ?thesis by simp
  next
    case False
    show ?thesis
    proof (cases "q \<in> fst ` set ps")
      case True
      then obtain b where b: "(q, b) \<in> set ps" by force
      then have "(b, q) \<in> set ?r" by force
      from moved_dst [OF sr this] moved_dst [OF assms(1) b] show ?thesis by simp
    next
      case nf: False
      with False f s have "q \<notin> fst ` set ?r" "q \<notin> snd ` set ?r" by simp_all
      from moved_other [OF this] moved_other [OF nf False] show ?thesis by simp
    qed
  qed
qed

text \<open>
  The claim as stated fails: the directory holds \<^verbatim>\<open>a.5.png\<close>, a regular file that already
  bears the temporary name of \<^verbatim>\<open>a.5.png\<close>, and \<^verbatim>\<open>b.1.png\<close>, whose staging fails. Every reverse
  rename succeeds and \<^verbatim>\<open>renumber_files\<close> returns, but staging \<^verbatim>\<open>a.5.png\<close> has replaced the
  second file, which stays lost: the directory does not have its names of before.
\<close>

theorem C9_lost_file_counterexample:
  "dir_entries temp_collision ''d''
     = [''a.5.png'', ''a.5_tmp_22-02-05_10-00-00.png'', ''b.1.png'']
   \<and> (case renumber_files (fail_at ''d/b.1_tmp_22-02-05_10-00-00.png'') ''d'' 1 2
             (on_disk temp_collision) of
        Inl z \<Rightarrow> False
      | Inr s' \<Rightarrow>
          trace s' =
            [(''d/a.5.png'', ''d/a.5_tmp_22-02-05_10-00-00.png'', True),
             (''d/b.1.png'', ''d/b.1_tmp_22-02-05_10-00-00.png'', False),
             (''d/a.5_tmp_22-02-05_10-00-00.png'', ''d/a.5.png'', False)]
          \<and> dir_entries (fs s') ''d'' = [''a.5.png'', ''b.1.png'']
          \<and> map_of (fs s') ''d/a.5_tmp_22-02-05_10-00-00.png'' = None)"
  by (simp add: run_defs temp_collision_def)

text \<open>
  C9, amended. Let the listing \<open>files\<close> of the directory be read, let the failing rename
  occur during the first phase, let every reverse
  rename be possible, and let no path of the directory already bear the temporary name of
  one of its sequence files. Then, when the failure occurs, every entry of the rename map
  maps an original path that is gone to a temporary path that exists; the rollback renames
  every staged file back, \<^verbatim>\<open>renumber_files\<close> returns normally, and the file system is what
  it was before the call.
\<close>

theorem C9_rollback_after_a_phase1_failure:
  assumes wf: "distinct (map fst (fs s))"
    and listed: "os_listdir e (fs s) path = Inr files"
    and fail: "stage_files e path files
                 (s\<lparr>renaming_dict := [], seqs_data_dict := []\<rparr>) = Inl (x, sf)"
    and fresh: "\<forall>p \<in> set (staging e path (fs s) files). \<not> os_path_exists (fs s) (snd p)"
    and undo: "\<forall>p \<in> set (renaming_dict sf). \<not> denied e (snd p) (fst p)"
  shows "rename_map_consistent sf
         \<and> set (renaming_dict sf) \<subseteq> set (staging e path (fs s) files)
         \<and> (\<exists>s'. renumber_files e path start len s = Inr s' \<and> map_of (fs s') = map_of (fs s))"
proof -
  let ?files = "dir_entries (fs s) path"
  let ?s0 = "s\<lparr>renaming_dict := [], seqs_data_dict := []\<rparr>"
  let ?P = "staging e path (fs s) ?files"
  let ?m = "map_of (fs s)"
  from listed have files: "files = ?files" by (simp add: os_listdir_Inr)
  note fail = fail [unfolded files] and fresh = fresh [unfolded files]
  note listed = listed [unfolded files]
  have d: "distinct ?files"
    and ex: "\<forall>entry \<in> set ?files. map_of (fs ?s0) (path @ ''/'' @ entry) \<noteq> None"
    using listing_facts [OF wf] by simp_all
  have sep: "separate ?P" by (rule staging_separate [OF d])
  have src: "\<forall>a \<in> fst ` set ?P. os_path_isfile (fs ?s0) a" using staging_sources by auto
  from stage_files_plan [OF d ex, of e] fail obtain c where
    "Inl (x, sf) = with_seqs c (run_plan e (staging e path (fs ?s0) ?files) ?s0)" by auto
  then obtain sf' where r: "run_plan e ?P ?s0 = Inl (x, sf')" and sf: "sf = sf'\<lparr>seqs_data_dict := c\<rparr>"
    by (cases "run_plan e ?P ?s0") (auto simp: with_seqs_def)
  from run_plan_Inl [OF sep src r] obtain k where k: "k < length ?P"
    and fsf: "map_of (fs sf') = moved ?m (take k ?P)"
    and dsf: "renaming_dict sf' = recorded [] (take k ?P)"
    and lsf: "logs sf' = logs s" by auto
  let ?Q = "take k ?P"
  have sq: "separate ?Q" by (rule separate_take [OF sep])
  then have "distinct (map fst ([] @ ?Q))" by (simp add: separate_def)
  from recorded_append [OF this] dsf have dq: "renaming_dict sf = ?Q" by (simp add: sf)
  have sub: "set ?Q \<subseteq> set ?P" by (rule set_take_subset)
  have at_dst: "\<And>a b. (a, b) \<in> set ?Q \<Longrightarrow> os_path_isfile (fs sf) b"
  proof -
    fix a b assume ab: "(a, b) \<in> set ?Q"
    with sub have "a \<in> fst ` set ?P" by force
    with src have "os_path_isfile (fs s) a" by auto
    with moved_dst [OF sq ab, of ?m] fsf show "os_path_isfile (fs sf) b"
      by (simp add: sf isfile_Some)
  qed
  have at_src: "\<And>a b. (a, b) \<in> set ?Q \<Longrightarrow> map_of (fs sf) a = None"
  proof -
    fix a b assume "(a, b) \<in> set ?Q"
    then have "a \<in> fst ` set ?Q" by force
    from moved_src [OF sq this, of ?m] fsf show "map_of (fs sf) a = None" by (simp add: sf)
  qed
  have "\<forall>p \<in> set ?Q. os_path_exists (fs sf) (snd p) \<and> \<not> os_path_exists (fs sf) (fst p)"
  proof
    fix p assume "p \<in> set ?Q"
    then have "(fst p, snd p) \<in> set ?Q" by simp
    from at_dst [OF this] at_src [OF this]
    show "os_path_exists (fs sf) (snd p) \<and> \<not> os_path_exists (fs sf) (fst p)"
      by (auto simp: os_path_exists_def isfile_Some)
  qed
  then have cons: "rename_map_consistent sf"
    by (simp add: rename_map_consistent_def dq list_all_iff case_prod_beta)
  define sl where "sl = logger_error ''Skipping directory...''
               (logger_error_exc x (logger_error (''Error found renaming files on '' @ path) sf))"
  let ?R = "map (\<lambda>p. (snd p, fst p)) ?Q"
  have fsl: "fs sl = fs sf" by (simp add: sl_def logger_error_def logger_error_exc_def)
  have sr: "separate ?R" by (rule separate_swap [OF sq])
  have srcR: "\<forall>a \<in> fst ` set ?R. os_path_isfile (fs sl) a"
    unfolding fsl
  proof
    fix b assume "b \<in> fst ` set ?R"
    then obtain a where "(a, b) \<in> set ?Q" by force
    then show "os_path_isfile (fs sf) b" by (rule at_dst)
  qed
  have dstR: "\<forall>p \<in> set ?R. \<not> denied e (fst p) (snd p) \<and> map_of (fs sl) (snd p) \<noteq> Some Directory"
    unfolding fsl
  proof
    fix p assume "p \<in> set ?R"
    then have q: "(snd p, fst p) \<in> set ?Q" by force
    with undo have "\<not> denied e (fst p) (snd p)" unfolding dq by force
    with at_src [OF q]
    show "\<not> denied e (fst p) (snd p) \<and> map_of (fs sf) (snd p) \<noteq> Some Directory" by simp
  qed
  from run_plan_ok [OF sr srcR dstR] obtain s2 where r2: "run_plan e ?R sl = Inr s2" by blast
  from run_plan_Inr [OF sr srcR r2] have "map_of (fs s2) = moved (map_of (fs sl)) ?R"
    by simp
  then have "map_of (fs s2) = moved (moved ?m ?Q) ?R"
    unfolding fsl by (simp add: sf fsf)
  also have "\<dots> = ?m"
  proof (rule moved_undo [OF sq])
    show "\<forall>b \<in> snd ` set ?Q. ?m b = None"
      using fresh sub by (auto simp: os_path_exists_def)
  qed
  finally have back_to: "map_of (fs s2) = ?m" .
  have nonempty: "?files \<noteq> []" using fail by auto
  from fail have "try_block e path start len ?files ?s0 = Inl (x, sf)"
    by (simp add: try_block_def)
  with nonempty
  have "renumber_files e path start len s = restore_original_names e (renaming_dict sf) sl"
    by (simp add: renumber_files_listed [OF listed] sl_def)
  also have "\<dots> = with_dict (renaming_dict sl) (run_plan e ?R sl)"
    by (simp add: restore_original_names_plan dq)
  also have "\<dots> = Inr (s2\<lparr>renaming_dict := renaming_dict sl\<rparr>)"
    by (simp add: r2)
  finally have "renumber_files e path start len s = Inr (s2\<lparr>renaming_dict := renaming_dict sl\<rparr>)" .
  with back_to have "\<exists>s'. renumber_files e path start len s = Inr s' \<and> map_of (fs s') = ?m"
    by (intro exI [of _ "s2\<lparr>renaming_dict := renaming_dict sl\<rparr>"]) simp
  with cons sub dq show ?thesis by (simp add: files)
qed

theorem C9_rollback_after_a_phase1_failure_witness:
  "\<exists>x sf. stage_files (fail_at ''d/a.10_tmp_22-02-05_10-00-00.png'') ''d''
             (dir_entries two_sequences ''d'') (on_disk two_sequences) = Inl (x, sf)
          \<and> renaming_dict sf = [(''d/b.7.jpg'', ''d/b.7_tmp_22-02-05_10-00-00.jpg''),
                                (''d/a.9.png'', ''d/a.9_tmp_22-02-05_10-00-00.png'')]
          \<and> rename_map_consistent sf
          \<and> (\<exists>s'. renumber_files (fail_at ''d/a.10_tmp_22-02-05_10-00-00.png'') ''d'' 1 2
                      (on_disk two_sequences) = Inr s'
                  \<and> map_of (fs s') = map_of two_sequences)"
proof -
  let ?e = "fail_at ''d/a.10_tmp_22-02-05_10-00-00.png''"
  let ?s = "on_disk two_sequences"
  have "\<exists>x sf. stage_files ?e ''d'' (dir_entries (fs ?s) ''d'')
                  (?s\<lparr>renaming_dict := [], seqs_data_dict := []\<rparr>) = Inl (x, sf)
          \<and> renaming_dict sf = [(''d/b.7.jpg'', ''d/b.7_tmp_22-02-05_10-00-00.jpg''),
                                (''d/a.9.png'', ''d/a.9_tmp_22-02-05_10-00-00.png'')]"
    by (simp add: run_defs two_sequences_def)
  then obtain x sf where r: "stage_files ?e ''d'' (dir_entries (fs ?s) ''d'')
                  (?s\<lparr>renaming_dict := [], seqs_data_dict := []\<rparr>) = Inl (x, sf)"
    and d: "renaming_dict sf = [(''d/b.7.jpg'', ''d/b.7_tmp_22-02-05_10-00-00.jpg''),
                                (''d/a.9.png'', ''d/a.9_tmp_22-02-05_10-00-00.png'')]" by blast
  have wf: "distinct (map fst (fs ?s))" by (simp add: on_disk_def two_sequences_def)
  have listed: "os_listdir ?e (fs ?s) ''d'' = Inr (dir_entries (fs ?s) ''d'')"
    by (simp add: os_listdir_Inr os_path_isdir_def on_disk_def fail_at_def two_sequences_def)
  have fresh: "\<forall>p \<in> set (staging ?e ''d'' (fs ?s) (dir_entries (fs ?s) ''d'')).
                 \<not> os_path_exists (fs ?s) (snd p)"
    by (simp add: run_defs staging_def staged_def stage_pair_def two_sequences_def)
  have undo: "\<forall>p \<in> set (renaming_dict sf). \<not> denied ?e (snd p) (fst p)"
    by (simp add: d fail_at_def)
  have same: "?s\<lparr>renaming_dict := [], seqs_data_dict := []\<rparr> = ?s" "fs ?s = two_sequences"
    by (simp_all add: on_disk_def)
  from C9_rollback_after_a_phase1_failure [OF wf listed r fresh undo, of 1 2] r d
  show ?thesis unfolding same by blast
qed

subsection \<open>Claim C6: paths that are skipped\<close>

text \<open>
  The claim as stated fails: a directory whose only entry is \<^verbatim>\<open>readme.txt\<close> holds no file
  after filtering, and is processed without any warning.
\<close>

theorem C6_no_warning_counterexample:
  "filter (is_seq_file [(''d'', Directory), (''d/readme.txt'', RegFile 1)] ''d'')
     (dir_entries [(''d'', Directory), (''d/readme.txt'', RegFile 1)] ''d'') = []
   \<and> (case renumber_files no_faults ''d'' 1 2
             (on_disk [(''d'', Directory), (''d/readme.txt'', RegFile 1)]) of
        Inl z \<Rightarrow> False
      | Inr s' \<Rightarrow> logs s' = [])"
  by (simp add: run_defs)

text \<open>
  C6, amended. If the path does not exist, is not a directory, or its listing is read and
  holds no entry that passes the filter, then \<^verbatim>\<open>renumber_files\<close> returns normally, the
  file system is unchanged, no rename is attempted, and the next directory is processed. A
  warning is logged exactly when the path does not exist, is not a directory, or has an
  empty listing; a directory with entries none of which passes the filter gets no warning.
\<close>

theorem C6_skipped_directory:
  assumes "\<not> os_path_exists (fs s) path \<or> \<not> os_path_isdir (fs s) path
           \<or> (\<exists>files. os_listdir e (fs s) path = Inr files
                  \<and> filter (is_seq_file (fs s) path) files = [])"
  shows "\<exists>s'. renumber_files e path start len s = Inr s'
           \<and> fs s' = fs s \<and> trace s' = trace s
           \<and> (if \<not> os_path_exists (fs s) path \<or> \<not> os_path_isdir (fs s) path
                   \<or> os_listdir e (fs s) path = Inr []
               then \<exists>msg. logs s' = logs s @ [Warning msg]
               else logs s' = logs s)
           \<and> run_paths e (path # paths) start len s = run_paths e paths start len s'"
proof (cases "\<not> os_path_exists (fs s) path \<or> \<not> os_path_isdir (fs s) path")
  case True
  then show ?thesis
    by (auto simp: renumber_files_def logger_warning_def)
next
  case False
  with assms obtain files where l: "os_listdir e (fs s) path = Inr files"
    and none: "filter (is_seq_file (fs s) path) files = []" by blast
  note rf = renumber_files_listed [OF l, of start len]
  show ?thesis
  proof (cases "files = []")
    case True
    with False l show ?thesis by (simp add: rf logger_warning_def)
  next
    case nonempty: False
    let ?s0 = "s\<lparr>renaming_dict := [], seqs_data_dict := []\<rparr>"
    from none have "list_all (\<lambda>file. \<not> is_seq_file (fs ?s0) path file) files"
      by (simp add: filter_empty_conv list_all_iff)
    then have "stage_files e path files ?s0 = Inr ?s0"
      by (rule stage_files_skip_all)
    with nonempty have "renumber_files e path start len s = Inr ?s0"
      by (simp add: rf try_block_def)
    with False nonempty l show ?thesis by simp
  qed
qed

theorem C6_skipped_directory_witness:
  "(\<exists>s'. renumber_files no_faults ''d'' 1 2 (on_disk no_sequences) = Inr s'
          \<and> fs s' = no_sequences \<and> trace s' = [] \<and> logs s' = []
          \<and> run_paths no_faults [''d'', ''e''] 1 2 (on_disk no_sequences)
              = run_paths no_faults [''e''] 1 2 s')
   \<and> (\<exists>s' msg. renumber_files no_faults ''nowhere'' 1 2 (on_disk no_sequences) = Inr s'
          \<and> fs s' = no_sequences \<and> trace s' = [] \<and> logs s' = [Warning msg])"
proof -
  let ?s = "on_disk no_sequences"
  have l: "os_listdir no_faults (fs ?s) ''d'' = Inr [''readme.txt'', ''a.x.png'', ''a.1.png'']"
    by (simp add: run_defs no_sequences_def)
  have "filter (is_seq_file (fs ?s) ''d'') [''readme.txt'', ''a.x.png'', ''a.1.png''] = []"
    by (simp add: run_defs no_sequences_def)
  with l have h: "\<not> os_path_exists (fs ?s) ''d'' \<or> \<not> os_path_isdir (fs ?s) ''d''
           \<or> (\<exists>files. os_listdir no_faults (fs ?s) ''d'' = Inr files
                  \<and> filter (is_seq_file (fs ?s) ''d'') files = [])"
    by simp
  have d: "os_path_exists (fs ?s) ''d''" "os_path_isdir (fs ?s) ''d''"
    by (simp_all add: run_defs no_sequences_def)
  have h': "\<not> os_path_exists (fs ?s) ''nowhere'' \<or> \<not> os_path_isdir (fs ?s) ''nowhere''
           \<or> (\<exists>files. os_listdir no_faults (fs ?s) ''nowhere'' = Inr files
                  \<and> filter (is_seq_file (fs ?s) ''nowhere'') files = [])"
    by (simp add: run_defs no_sequences_def)
  have n: "\<not> os_path_exists (fs ?s) ''nowhere''" by (simp add: run_defs no_sequences_def)
  have f: "fs ?s = no_sequences" "trace ?s = []" "logs ?s = []" by (simp_all add: on_disk_def)
  from C6_skipped_directory [OF h, of 1 2 "[''e'']"] d l
  have 1: "\<exists>s'. renumber_files no_faults ''d'' 1 2 ?s = Inr s'
          \<and> fs s' = no_sequences \<and> trace s' = [] \<and> logs s' = []
          \<and> run_paths no_faults [''d'', ''e''] 1 2 ?s = run_paths no_faults [''e''] 1 2 s'"
    unfolding f by simp
  from C6_skipped_directory [OF h', of 1 2 "[]"] n
  have 2: "\<exists>s' msg. renumber_files no_faults ''nowhere'' 1 2 ?s = Inr s'
          \<and> fs s' = no_sequences \<and> trace s' = [] \<and> logs s' = [Warning msg]"
    unfolding f by auto
  from 1 2 show ?thesis by blast
qed

subsection \<open>Claim C2: exceptions that leave the processing of a directory\<close>

lemma try_block_Nil: "try_block e path start len [] (s\<lparr>renaming_dict := [], seqs_data_dict := []\<rparr>)
                      = Inr (s\<lparr>renaming_dict := [], seqs_data_dict := []\<rparr>)"
  by (simp add: try_block_def)

lemma handler_logged:
  "logger_error ''Skipping directory...''
     (logger_error_exc x (logger_error (''Error found renaming files on '' @ path) s))
   = s\<lparr>logs := logs s @ handler_logs path x\<rparr>"
  by (simp add: logger_error_def logger_error_exc_def handler_logs_def)

lemma renumber_files_caught:
  assumes l: "os_listdir e (fs s) path = Inr files"
    and t: "try_block e path start len files (s\<lparr>renaming_dict := [], seqs_data_dict := []\<rparr>)
              = Inl (x0, s1)"
  shows "renumber_files e path start len s
           = restore_original_names e (renaming_dict s1) (s1\<lparr>logs := logs s @ handler_logs path x0\<rparr>)"
proof -
  from t have "files \<noteq> []" by (auto simp: try_block_Nil)
  moreover from try_block_logs [of e path start len files "s\<lparr>renaming_dict := [], seqs_data_dict := []\<rparr>"] t
  have "logs s1 = logs s" by simp
  ultimately show ?thesis
    unfolding renumber_files_listed [OF l] handler_logged using t by simp
qed

lemma renumber_files_Inl:
  assumes "renumber_files e path start len s = Inl (x, s')"
  shows "(os_listdir e (fs s) path = Inl x \<and> s' = s)
         \<or> (\<exists>files x0 s1 org cur.
               os_listdir e (fs s) path = Inr files
               \<and> try_block e path start len files (s\<lparr>renaming_dict := [], seqs_data_dict := []\<rparr>)
                   = Inl (x0, s1)
               \<and> (org, cur) \<in> set (renaming_dict s1)
               \<and> os_rename e cur org (fs s') = Inl x
               \<and> logs s' = logs s @ handler_logs path x0)"
proof (cases "os_listdir e (fs s) path")
  case (Inl x1)
  with assms show ?thesis
    by (auto simp: renumber_files_def split: if_splits)
next
  case (Inr files)
  let ?s0 = "s\<lparr>renaming_dict := [], seqs_data_dict := []\<rparr>"
  from assms obtain x0 s1 where t: "try_block e path start len files ?s0 = Inl (x0, s1)"
    unfolding renumber_files_listed [OF Inr]
    by (cases "try_block e path start len files ?s0") (auto split: if_splits)
  from assms have "restore_original_names e (renaming_dict s1)
                     (s1\<lparr>logs := logs s @ handler_logs path x0\<rparr>) = Inl (x, s')"
    unfolding renumber_files_caught [OF Inr t] .
  from restore_original_names_Inl [OF this] Inr t show ?thesis by auto
qed

text \<open>
  The claim as stated fails. With the directories \<^verbatim>\<open>d\<close> and \<^verbatim>\<open>e\<close> given: (1) staging
  \<^verbatim>\<open>d/a.2.png\<close> fails, the error is caught, and the reverse rename of \<^verbatim>\<open>d/a.1.png\<close> fails as
  well: its error leaves \<^verbatim>\<open>main\<close> and \<^verbatim>\<open>e\<close> is never processed; (2) the listing of \<^verbatim>\<open>d\<close> may
  not be read: the error of \<^verbatim>\<open>os.listdir\<close> leaves \<^verbatim>\<open>main\<close>, nothing is logged, and \<^verbatim>\<open>e\<close> is
  never processed.
\<close>

theorem C2_exception_escapes_counterexample:
  "(case main (fail_at_all [''d/a.2_tmp_22-02-05_10-00-00.png'', ''d/a.1.png''])
           [''d'', ''e''] ''.'' 1 2 (on_disk two_dirs) of
      Inl (x, s') \<Rightarrow>
        x = PermissionError ''d/a.1_tmp_22-02-05_10-00-00.png'' ''d/a.1.png''
        \<and> map_of (fs s') ''e/b.5.png'' = Some (RegFile 3)
        \<and> map_of (fs s') ''e/b.01.png'' = None
    | Inr s' \<Rightarrow> False)
   \<and> (case main (locked ''d'') [''d'', ''e''] ''.'' 1 2 (on_disk two_dirs) of
      Inl (x, s') \<Rightarrow>
        x = PermissionError ''d'' [] \<and> logs s' = [] \<and> fs s' = two_dirs
    | Inr s' \<Rightarrow> False)"
  by (simp add: main_def run_defs fail_at_all_def locked_def two_dirs_def)

text \<open>
  C2, amended. Every error raised by the two phases of a directory is caught: it is
  logged and the rollback is called on the rename map. A directory whose processing
  returns is followed by the next one. An exception leaves the processing of a directory
  in two cases only: \<^verbatim>\<open>os.listdir\<close> raises, before anything is logged or renamed, or an
  error of the phases was caught and logged and a reverse rename of the rollback raises.
  Such an exception ends the run: the remaining directories are not processed.
\<close>

theorem C2_exceptions_of_a_directory:
  "(os_listdir e (fs s) path = Inr files
      \<and> try_block e path start len files (s\<lparr>renaming_dict := [], seqs_data_dict := []\<rparr>)
          = Inl (x0, s1)
    \<longrightarrow> renumber_files e path start len s
          = restore_original_names e (renaming_dict s1)
              (s1\<lparr>logs := logs s @ handler_logs path x0\<rparr>))
   \<and> (renumber_files e path start len s = Inr s2
    \<longrightarrow> run_paths e (path # paths) start len s = run_paths e paths start len s2)
   \<and> (renumber_files e path start len s = Inl (x, s')
    \<longrightarrow> run_paths e (path # paths) start len s = Inl (x, s')
        \<and> ((os_listdir e (fs s) path = Inl x \<and> s' = s)
           \<or> (\<exists>files x0 s1 org cur.
                 os_listdir e (fs s) path = Inr files
                 \<and> try_block e path start len files
                     (s\<lparr>renaming_dict := [], seqs_data_dict := []\<rparr>) = Inl (x0, s1)
                 \<and> (org, cur) \<in> set (renaming_dict s1)
                 \<and> os_rename e cur org (fs s') = Inl x
                 \<and> logs s' = logs s @ handler_logs path x0)))"
proof (intro conjI impI)
  assume "os_listdir e (fs s) path = Inr files
      \<and> try_block e path start len files (s\<lparr>renaming_dict := [], seqs_data_dict := []\<rparr>)
          = Inl (x0, s1)"
  then show "renumber_files e path start len s
          = restore_original_names e (renaming_dict s1)
              (s1\<lparr>logs := logs s @ handler_logs path x0\<rparr>)"
    by (simp add: renumber_files_caught)
next
  assume "renumber_files e path start len s = Inr s2"
  then show "run_paths e (path # paths) start len s = run_paths e paths start len s2" by simp
next
  assume "renumber_files e path start len s = Inl (x, s')"
  then show "run_paths e (path # paths) start len s = Inl (x, s')" by simp
next
  assume "renumber_files e path start len s = Inl (x, s')"
  then show "(os_listdir e (fs s) path = Inl x \<and> s' = s)
           \<or> (\<exists>files x0 s1 org cur.
                 os_listdir e (fs s) path = Inr files
                 \<and> try_block e path start len files
                     (s\<lparr>renaming_dict := [], seqs_data_dict := []\<rparr>) = Inl (x0, s1)
                 \<and> (org, cur) \<in> set (renaming_dict s1)
                 \<and> os_rename e cur org (fs s') = Inl x
                 \<and> logs s' = logs s @ handler_logs path x0)"
    by (rule renumber_files_Inl)
qed

theorem C2_exceptions_of_a_directory_witness:
  "(\<exists>x0 s1 s'.
      try_block (fail_at_all [''d/a.2_tmp_22-02-05_10-00-00.png'', ''d/a.1.png'']) ''d'' 1 2
        [''a.1.png'', ''a.2.png''] (on_disk two_dirs) = Inl (x0, s1)
      \<and> renumber_files (fail_at_all [''d/a.2_tmp_22-02-05_10-00-00.png'', ''d/a.1.png'']) ''d'' 1 2
          (on_disk two_dirs)
         = restore_original_names (fail_at_all [''d/a.2_tmp_22-02-05_10-00-00.png'', ''d/a.1.png''])
             (renaming_dict s1) (s1\<lparr>logs := handler_logs ''d'' x0\<rparr>)
      \<and> run_paths (fail_at_all [''d/a.2_tmp_22-02-05_10-00-00.png'', ''d/a.1.png''])
          [''d'', ''e''] 1 2 (on_disk two_dirs)
         = Inl (PermissionError ''d/a.1_tmp_22-02-05_10-00-00.png'' ''d/a.1.png'', s'))
   \<and> (\<exists>s2. renumber_files (fail_at ''d/a.2_tmp_22-02-05_10-00-00.png'') ''d'' 1 2
               (on_disk two_dirs) = Inr s2
          \<and> run_paths (fail_at ''d/a.2_tmp_22-02-05_10-00-00.png'') [''d'', ''e''] 1 2
               (on_disk two_dirs)
             = run_paths (fail_at ''d/a.2_tmp_22-02-05_10-00-00.png'') [''e''] 1 2 s2)"
proof -
  let ?e1 = "fail_at_all [''d/a.2_tmp_22-02-05_10-00-00.png'', ''d/a.1.png'']"
  let ?e2 = "fail_at ''d/a.2_tmp_22-02-05_10-00-00.png''"
  let ?s = "on_disk two_dirs"
  have same: "?s\<lparr>renaming_dict := [], seqs_data_dict := []\<rparr> = ?s" "logs ?s = []"
    by (simp_all add: on_disk_def)
  have l: "os_listdir ?e1 (fs ?s) ''d'' = Inr [''a.1.png'', ''a.2.png'']"
    by (simp add: run_defs fail_at_all_def two_dirs_def)
  have "\<exists>x0 s1. try_block ?e1 ''d'' 1 2 [''a.1.png'', ''a.2.png''] ?s = Inl (x0, s1)"
    by (simp add: run_defs fail_at_all_def two_dirs_def)
  then obtain x0 s1 where t: "try_block ?e1 ''d'' 1 2 [''a.1.png'', ''a.2.png''] ?s = Inl (x0, s1)"
    by blast
  have "\<exists>s'. renumber_files ?e1 ''d'' 1 2 ?s
               = Inl (PermissionError ''d/a.1_tmp_22-02-05_10-00-00.png'' ''d/a.1.png'', s')"
    by (simp add: run_defs fail_at_all_def two_dirs_def)
  then obtain s' where r: "renumber_files ?e1 ''d'' 1 2 ?s
               = Inl (PermissionError ''d/a.1_tmp_22-02-05_10-00-00.png'' ''d/a.1.png'', s')"
    by blast
  have "\<exists>s2. renumber_files ?e2 ''d'' 1 2 ?s = Inr s2"
    by (simp add: run_defs two_dirs_def)
  then obtain s2 where r2: "renumber_files ?e2 ''d'' 1 2 ?s = Inr s2" by blast
  note thm1 = C2_exceptions_of_a_directory [where e = ?e1 and s = ?s and path = "''d''"
      and files = "[''a.1.png'', ''a.2.png'']" and start = 1 and len = 2 and ?x0.0 = x0 and ?s1.0 = s1
      and paths = "[''e'']" and s' = s'
      and x = "PermissionError ''d/a.1_tmp_22-02-05_10-00-00.png'' ''d/a.1.png''", unfolded same append_Nil]
  note thm2 = C2_exceptions_of_a_directory [where e = ?e2 and s = ?s and path = "''d''"
      and start = 1 and len = 2 and ?s2.0 = s2 and paths = "[''e'']"]
  from thm1 l t r have 1: "renumber_files ?e1 ''d'' 1 2 ?s
         = restore_original_names ?e1 (renaming_dict s1) (s1\<lparr>logs := handler_logs ''d'' x0\<rparr>)"
    "run_paths ?e1 [''d'', ''e''] 1 2 ?s
         = Inl (PermissionError ''d/a.1_tmp_22-02-05_10-00-00.png'' ''d/a.1.png'', s')"
    by blast+
  from thm2 r2 have 2: "run_paths ?e2 [''d'', ''e''] 1 2 ?s = run_paths ?e2 [''e''] 1 2 s2"
    by blast
  from 1 2 t r2 show ?thesis by blast
qed

subsection \<open>Claim C7: zero padding\<close>

lemma frame_field:
  assumes "0 \<le> k"
  shows "zfill len (str_int k)
           = replicate (nat (len - int (length (str_int k)))) (CHR ''0'') @ str_int k"
    and "list_all is_digit (str_int k)"
    and "python_int (str_int k) = Some k"
    and "python_int (zfill len (str_int k)) = Some k"
proof -
  have s: "str_int k = digits (nat k)"
    using assms by (simp add: str_int_def)
  show z: "zfill len (str_int k)
           = replicate (nat (len - int (length (str_int k)))) (CHR ''0'') @ str_int k"
    using zfill_nonneg [OF assms] s by simp
  show d: "list_all is_digit (str_int k)"
    by (simp add: s digits_all_digit)
  show "python_int (str_int k) = Some k"
    using assms by (simp add: python_int_def s digits_all_digit digits_nonempty digits_val_digits)
  have "is_digit (CHR ''0'')" by (simp add: is_digit_def)
  then have "list_all is_digit (zfill len (str_int k))"
    using d by (auto simp: z list_all_iff)
  moreover have "zfill len (str_int k) \<noteq> []"
    unfolding z by (simp add: s digits_nonempty)
  moreover have "digits_val (zfill len (str_int k)) = nat k"
    unfolding z by (simp add: digits_val_zeros s digits_val_digits)
  ultimately show "python_int (zfill len (str_int k)) = Some k"
    using assms by (simp add: python_int_def)
qed

text \<open>
  C7. Let a renumbering of \<open>path\<close> succeed (it returns and logs nothing), with a start
  number that is not negative. Then every file of a sequence is found afterwards under
  its base name and extension with a frame field that is the decimal representation of
  its frame number \<open>k\<close>, the start number plus the position of its token in the sorted
  bucket, extended on the left with zeros up to \<open>len\<close> characters and never shortened: the
  length of the field is the larger of \<open>len\<close> and the number of digits of \<open>k\<close>, and the field
  still reads as \<open>k\<close>. With length 2 the number 1000 is written \<^verbatim>\<open>1000\<close>.
\<close>

theorem C7_zero_padding_is_a_minimum:
  assumes wf: "distinct (map fst (fs s))"
    and run: "renumber_files e path start len s = Inr s'" and quiet: "logs s' = logs s"
    and start: "0 \<le> start"
    and en: "entry \<in> set (dir_entries (fs s) path)" "is_seq_file (fs s) path entry"
      "seq_parts entry = Some (name, number, ext)"
  shows "\<exists>r < length (tokens_of (name, ext) (staged (fs s) path (dir_entries (fs s) path))).
           sort_key int_key (tokens_of (name, ext) (staged (fs s) path (dir_entries (fs s) path))) ! r
             = number
           \<and> map_of (fs s')
                (path @ ''/'' @ name @ ''.''
                   @ (replicate (nat (len - int (length (str_int (start + int r))))) (CHR ''0'')
                      @ str_int (start + int r))
                   @ ''.'' @ ext)
               = map_of (fs s) (path @ ''/'' @ entry)
           \<and> list_all is_digit (str_int (start + int r))
           \<and> python_int (str_int (start + int r)) = Some (start + int r)
           \<and> int (length (replicate (nat (len - int (length (str_int (start + int r))))) (CHR ''0'')
                            @ str_int (start + int r)))
               = max len (int (length (str_int (start + int r))))
           \<and> python_int (replicate (nat (len - int (length (str_int (start + int r))))) (CHR ''0'')
                            @ str_int (start + int r))
               = Some (start + int r)"
proof -
  let ?files = "dir_entries (fs s) path"
  let ?s0 = "s\<lparr>renaming_dict := [], seqs_data_dict := []\<rparr>"
  let ?T = "tokens_of (name, ext) (staged (fs s) path ?files)"
  have d: "distinct ?files"
    and ex: "\<forall>entry \<in> set ?files. map_of (fs ?s0) (path @ ''/'' @ entry) \<noteq> None"
    using listing_facts [OF wf] by simp_all
  have em: "seqs_data_dict ?s0 = []" by simp
  from renumber_files_quiet [OF run quiet]
  have r: "try_block e path start len ?files ?s0 = Inr s'" .
  from en have "number \<in> set (sort_key int_key ?T)" by (auto simp: tokens_of_member staged_def)
  then obtain i where "i < length (sort_key int_key ?T)" "sort_key int_key ?T ! i = number"
    unfolding in_set_conv_nth by blast
  then have i: "i < length ?T" "sort_key int_key ?T ! i = number" by simp_all
  from start have k: "0 \<le> start + int i" by simp
  note f = frame_field(1) [OF k, of len] frame_field(2,3) [OF k] frame_field(4) [OF k, of len]
  from renumbered [OF d ex em r en(1) _ en(3), of i] en(2) i
  have "map_of (fs s') (new_path path name (start + int i) len ext)
         = map_of (fs s) (path @ ''/'' @ entry)" by simp
  then have at: "map_of (fs s')
                (path @ ''/'' @ name @ ''.''
                   @ (replicate (nat (len - int (length (str_int (start + int i))))) (CHR ''0'')
                      @ str_int (start + int i))
                   @ ''.'' @ ext)
               = map_of (fs s) (path @ ''/'' @ entry)"
    unfolding new_path_def f(1) .
  have len: "int (length (replicate (nat (len - int (length (str_int (start + int i))))) (CHR ''0'')
                            @ str_int (start + int i)))
               = max len (int (length (str_int (start + int i))))"
    using length_zfill [of len "str_int (start + int i)"] unfolding f(1) .
  from i at f(2,3) len f(4) [unfolded f(1)] show ?thesis by blast
qed

theorem C7_zero_padding_witness:
  "\<exists>s'. renumber_files no_faults ''d'' 998 2 (on_disk three_frames) = Inr s'
         \<and> map_of (fs s') ''d/a.1000.png'' = Some (RegFile 10)"
proof -
  let ?s = "on_disk three_frames"
  have "\<exists>s'. renumber_files no_faults ''d'' 998 2 ?s = Inr s' \<and> logs s' = logs ?s"
    by (simp add: run_defs three_frames_def)
  then obtain s' where run: "renumber_files no_faults ''d'' 998 2 ?s = Inr s'"
    and quiet: "logs s' = logs ?s" by blast
  have wf: "distinct (map fst (fs ?s))" by (simp add: on_disk_def three_frames_def)
  have l: "dir_entries (fs ?s) ''d'' = [''a.9.png'', ''a.10.png'', ''a.2.png'']"
    by (simp add: run_defs three_frames_def)
  have en: "''a.10.png'' \<in> set (dir_entries (fs ?s) ''d'')" "is_seq_file (fs ?s) ''d'' ''a.10.png''"
    "seq_parts ''a.10.png'' = Some (''a'', ''10'', ''png'')"
    unfolding l by (simp_all add: run_defs three_frames_def)
  have T: "sort_key int_key
             (tokens_of (''a'', ''png'') (staged (fs ?s) ''d'' (dir_entries (fs ?s) ''d'')))
           = [''2'', ''9'', ''10'']"
    "length (tokens_of (''a'', ''png'') (staged (fs ?s) ''d'' (dir_entries (fs ?s) ''d''))) = 3"
    unfolding l by (simp_all add: run_defs plan_defs three_frames_def)
  have start: "(0::int) \<le> 998" by simp
  from C7_zero_padding_is_a_minimum [OF wf run quiet start en]
  obtain r where r: "r < 3" "[''2'', ''9'', ''10''] ! r = ''10''"
    and at: "map_of (fs s')
                (''d'' @ ''/'' @ ''a'' @ ''.''
                   @ (replicate (nat (2 - int (length (str_int (998 + int r))))) (CHR ''0'')
                      @ str_int (998 + int r))
                   @ ''.'' @ ''png'')
               = map_of (fs ?s) (''d'' @ ''/'' @ ''a.10.png'')"
    unfolding T by blast
  from r(1) have "r = 0 \<or> r = 1 \<or> r = 2" by arith
  with r(2) have "r = 2" by auto
  with at have "map_of (fs s') ''d/a.1000.png'' = Some (RegFile 10)"
    by (simp add: str_int_def digits.simps digit_char_simps on_disk_def three_frames_def)
  with run show ?thesis by blast
qed

subsection \<open>Claim C10: destinations of the renames\<close>

lemma trace_of_dsts: "map (\<lambda>c. fst (snd c)) (trace_of m ps) = map snd ps"
  by (induction ps arbitrary: m) auto

lemma isnumeric_zfill: "0 \<le> k \<Longrightarrow> isnumeric (zfill w (str_int k))"
  using digits_all_digit [of "nat k"] digits_nonempty [of "nat k"]
  by (auto simp: zfill_nonneg isnumeric_def numeric_char_def list_all_iff is_digit_def)

lemma seq_name_slash:
  "CHR ''/'' \<notin> set (seq_name n t x) \<longleftrightarrow>
   CHR ''/'' \<notin> set n \<and> CHR ''/'' \<notin> set t \<and> CHR ''/'' \<notin> set x"
  by (auto simp: seq_name_def)

lemma final_plan_member:
  assumes "(a, b) \<in> set (final_plan e path start len f files)"
  shows "\<exists>entry n t x i. entry \<in> set files \<and> seq_parts entry = Some (n, t, x)
           \<and> b = new_path path n (start + int i) len x"
proof -
  from assms obtain key where key: "key \<in> set (map fst (buckets f path files))"
    and ab: "(a, b) \<in> set (seq_plan e path start len (buckets f path files) key)"
    unfolding final_plan_def numbering_member by blast
  from ab obtain i where b: "b = new_path path (fst key) (start + int i) len (snd key)"
    unfolding seq_plan_member by blast
  from key obtain entry t where "entry \<in> set files" "seq_parts entry = Some (fst key, t, snd key)"
    unfolding buckets_keys by blast
  with b show ?thesis by blast
qed

lemma staging_fresh:
  assumes nosuf: "no_suffix e (dir_entries f path)"
    and b: "b \<in> snd ` set (staging e path f (dir_entries f path))"
  shows "map_of f b = None"
proof (rule ccontr)
  assume there: "map_of f b \<noteq> None"
  from b obtain a where "(a, b) \<in> set (staging e path f (dir_entries f path))" by force
  then obtain entry n t x where en: "entry \<in> set (dir_entries f path)"
    and sp: "seq_parts entry = Some (n, t, x)" and b': "b = tmp_path e path n t x"
    unfolding staging_member by blast
  let ?nm = "seq_name n (t @ TEMP_SUFIX (now e)) x"
  from sp have entry: "entry = seq_name n t x" by (simp add: seq_parts_Some)
  from en have "CHR ''/'' \<notin> set entry" by (simp add: dir_entries_member)
  then have "CHR ''/'' \<notin> set n" "CHR ''/'' \<notin> set t" "CHR ''/'' \<notin> set x"
    by (simp_all add: entry seq_name_slash)
  moreover have "CHR ''/'' \<notin> set (TEMP_SUFIX (now e))" using TEMP_SUFIX_chars by blast
  ultimately have "CHR ''/'' \<notin> set ?nm" by (simp add: seq_name_slash)
  moreover have "?nm \<noteq> []" by (simp add: seq_name_def)
  moreover from there have "map_of f (path @ ''/'' @ ?nm) \<noteq> None" by (simp add: b' tmp_path_name)
  ultimately have "?nm \<in> set (dir_entries f path)" by (simp add: dir_entries_member)
  with nosuf have "\<not> sublist (TEMP_SUFIX (now e)) ?nm" by (simp add: no_suffix_def list_all_iff)
  moreover have "?nm = (n @ ''.'' @ t) @ TEMP_SUFIX (now e) @ (''.'' @ x)"
    by (simp add: seq_name_def)
  then have "sublist (TEMP_SUFIX (now e)) ?nm" unfolding sublist_def by blast
  ultimately show False by simp
qed

lemma final_plan_fresh:
  assumes d: "distinct (dir_entries f path)"
    and start: "0 \<le> start"
    and reg: "\<forall>entry \<in> set (dir_entries f path).
                seq_parts entry \<noteq> None \<longrightarrow> os_path_isfile f (path @ ''/'' @ entry)"
    and b: "b \<in> snd ` set (final_plan e path start len f (dir_entries f path))"
  shows "b \<notin> snd ` set (staging e path f (dir_entries f path))"
    and "moved (map_of f) (staging e path f (dir_entries f path)) b = None"
proof -
  let ?files = "dir_entries f path"
  let ?P = "staging e path f ?files"
  from b obtain a where "(a, b) \<in> set (final_plan e path start len f ?files)" by force
  from final_plan_member [OF this] obtain entry n t x i where en: "entry \<in> set ?files"
    and sp: "seq_parts entry = Some (n, t, x)"
    and b': "b = new_path path n (start + int i) len x" by blast
  let ?z = "zfill len (str_int (start + int i))"
  let ?nm = "seq_name n ?z x"
  from sp have entry: "entry = seq_name n t x" and nd: "CHR ''.'' \<notin> set n" "CHR ''.'' \<notin> set x"
    by (simp_all add: seq_parts_Some)
  show nodst: "b \<notin> snd ` set ?P"
  proof
    assume "b \<in> snd ` set ?P"
    then obtain a' where "(a', b) \<in> set ?P" by force
    then obtain n' t' x' entry' where sp': "seq_parts entry' = Some (n', t', x')"
      and bt: "b = tmp_path e path n' t' x'" unfolding staging_member by blast
    from sp' have "CHR ''.'' \<notin> set n'" "CHR ''.'' \<notin> set x'" by (simp_all add: seq_parts_Some)
    then have ne: "tmp_path e path n' t' x' \<noteq> new_path path n (start + int i) len x"
      using nd by (intro tmp_path_not_new)
    from bt b' have "tmp_path e path n' t' x' = new_path path n (start + int i) len x" by simp
    with ne show False by (rule notE)
  qed
  have sep: "separate ?P" by (rule staging_separate [OF d])
  show "moved (map_of f) ?P b = None"
  proof (cases "b \<in> fst ` set ?P")
    case True
    then show ?thesis by (rule moved_src [OF sep])
  next
    case False
    have "map_of f b = None"
    proof (rule ccontr)
      assume there: "map_of f b \<noteq> None"
      from start have num: "isnumeric ?z" by (simp add: isnumeric_zfill)
      from en have "CHR ''/'' \<notin> set entry" by (simp add: dir_entries_member)
      then have "CHR ''/'' \<notin> set n" "CHR ''/'' \<notin> set x" by (simp_all add: entry seq_name_slash)
      moreover have "CHR ''/'' \<notin> set ?z" using zfill_chars [of "CHR ''/''" len "start + int i"]
        by (auto simp: is_digit_def)
      ultimately have "CHR ''/'' \<notin> set ?nm" by (simp add: seq_name_slash)
      moreover have "?nm \<noteq> []" by (simp add: seq_name_def)
      moreover from there have ex: "map_of f (path @ ''/'' @ ?nm) \<noteq> None"
        by (simp add: b' new_path_name)
      ultimately have mem: "?nm \<in> set ?files" by (simp add: dir_entries_member)
      have sq: "seq_parts ?nm = Some (n, ?z, x)" using nd num by (simp add: seq_parts_Some)
      with reg mem have "os_path_isfile f (path @ ''/'' @ ?nm)" by auto
      with sq have "is_seq_file f path ?nm" by (simp add: is_seq_file_def)
      with mem sq have "(path @ ''/'' @ ?nm, tmp_path e path n ?z x) \<in> set ?P"
        unfolding staging_member by blast
      then have "b \<in> fst ` set ?P" unfolding b' new_path_name by force
      with False show False by simp
    qed
    with moved_other [OF False nodst] show ?thesis by simp
  qed
qed


lemma list_all_take: "list_all P xs \<Longrightarrow> list_all P (take k xs)"
  by (induction xs arbitrary: k) (auto simp: take_Cons split: nat.splits)

lemma restore_trace:
  "\<exists>t. trace (state_of (restore_original_names e d s)) = trace s @ t"
proof (induction d arbitrary: s)
  case Nil
  then show ?case by simp
next
  case (Cons p d)
  obtain org cur where p: "p = (org, cur)" by (cases p)
  show ?case
  proof (cases "rename_call e cur org s")
    case (Inl z)
    obtain x s1 where z: "z = (x, s1)" by (cases z)
    from rename_call_Inl [OF Inl [unfolded z]] Inl z p show ?thesis by simp
  next
    case (Inr s1)
    from rename_call_Inr [OF Inr] obtain f where
      s1: "s1 = s\<lparr>trace := trace s @ [(cur, org, os_path_exists (fs s) org)], fs := f\<rparr>" by blast
    from Cons.IH [of s1] obtain t where "trace (state_of (restore_original_names e d s1)) = trace s1 @ t"
      by blast
    with Inr p s1 show ?thesis by simp
  qed
qed

lemma phase_calls:
  assumes wf: "distinct (map fst (fs s))"
    and nosuf: "no_suffix e (dir_entries (fs s) path)"
    and start: "0 \<le> start"
    and reg: "\<forall>entry \<in> set (dir_entries (fs s) path).
                seq_parts entry \<noteq> None \<longrightarrow> os_path_isfile (fs s) (path @ ''/'' @ entry)"
  shows "\<exists>calls. trace (state_of (try_block e path start len (dir_entries (fs s) path)
                                      (s\<lparr>renaming_dict := [], seqs_data_dict := []\<rparr>)))
                   = trace s @ calls
                 \<and> list_all (\<lambda>c. \<not> snd (snd c)) calls
                 \<and> distinct (map (\<lambda>c. fst (snd c)) calls)"
proof -
  let ?files = "dir_entries (fs s) path"
  let ?s0 = "s\<lparr>renaming_dict := [], seqs_data_dict := []\<rparr>"
  let ?m = "map_of (fs s)"
  let ?P = "staging e path (fs s) ?files"
  let ?F = "final_plan e path start len (fs s) ?files"
  let ?T = "trace_of ?m ?P @ trace_of (moved ?m ?P) ?F"
  have d: "distinct ?files"
    and ex: "\<forall>entry \<in> set ?files. map_of (fs ?s0) (path @ ''/'' @ entry) \<noteq> None"
    using listing_facts [OF wf] by simp_all
  have em: "seqs_data_dict ?s0 = []" by simp
  from try_block_trace [OF d ex em, of e start len] obtain k where
    "trace (state_of (try_block e path start len ?files ?s0)) = trace ?s0 @ take k ?T" by auto
  then have k: "trace (state_of (try_block e path start len ?files ?s0)) = trace s @ take k ?T"
    by simp
  have sepP: "separate ?P" by (rule staging_separate [OF d])
  have sepF: "separate ?F" by (rule final_plan_separate [OF d])
  have dP: "distinct (map snd ?P)" using sepP unfolding separate_def by blast
  have dF: "distinct (map snd ?F)" using sepF unfolding separate_def by blast
  have f1: "\<forall>b \<in> snd ` set ?P. ?m b = None"
  proof
    fix b assume "b \<in> snd ` set ?P"
    with nosuf show "?m b = None" by (rule staging_fresh)
  qed
  have c1: "list_all (\<lambda>c. \<not> snd (snd c)) (trace_of ?m ?P)"
    by (rule trace_of_clean [OF dP f1])
  have f2: "\<forall>b \<in> snd ` set ?F. moved ?m ?P b = None"
  proof
    fix b assume "b \<in> snd ` set ?F"
    then show "moved ?m ?P b = None" by (rule final_plan_fresh(2) [OF d start reg])
  qed
  have c2: "list_all (\<lambda>c. \<not> snd (snd c)) (trace_of (moved ?m ?P) ?F)"
    by (rule trace_of_clean [OF dF f2])
  from c1 c2 have "list_all (\<lambda>c. \<not> snd (snd c)) ?T" by (simp only: list_all_append)
  then have clean: "list_all (\<lambda>c. \<not> snd (snd c)) (take k ?T)" by (rule list_all_take)
  have gen: "\<And>A B :: string set. \<forall>b \<in> A. b \<notin> B \<Longrightarrow> B \<inter> A = {}" by blast
  have "\<forall>b \<in> snd ` set ?F. b \<notin> snd ` set ?P"
  proof
    fix b assume "b \<in> snd ` set ?F"
    then show "b \<notin> snd ` set ?P" by (rule final_plan_fresh(1) [OF d start reg])
  qed
  then have "snd ` set ?P \<inter> snd ` set ?F = {}" by (rule gen)
  then have disj: "set (map snd ?P) \<inter> set (map snd ?F) = {}" by (simp only: set_map)
  have "map (\<lambda>c. fst (snd c)) ?T = map snd ?P @ map snd ?F"
    by (simp only: map_append trace_of_dsts)
  moreover from dP dF disj have "distinct (map snd ?P @ map snd ?F)"
    by (simp only: distinct_append)
  ultimately have "distinct (map (\<lambda>c. fst (snd c)) ?T)" by simp
  then have "distinct (take k (map (\<lambda>c. fst (snd c)) ?T))" by (rule distinct_take)
  then have "distinct (map (\<lambda>c. fst (snd c)) (take k ?T))" by (simp only: take_map)
  with k clean show ?thesis by blast
qed

text \<open>
  The claim as stated fails, in three ways. In each directory no name embeds the temporary
  suffix. (1) A subdirectory bears the final name of a frame: the rename of the second
  phase has a destination that exists. (2) With a negative start number the final name
  \<^verbatim>\<open>a.-1.png\<close> is that of a regular file the first loop skips: the rename replaces it and
  its content is lost. (3) After a failure during the second phase, the rollback renames
  the temporary file of \<^verbatim>\<open>a.2.png\<close> onto \<^verbatim>\<open>a.2.png\<close>, which by then is the renumbered
  \<^verbatim>\<open>a.1.png\<close>: that file is lost.
\<close>

theorem C10_existing_destination_counterexample:
  "no_suffix no_faults (dir_entries frame_named_directory ''d'')
   \<and> (case renumber_files no_faults ''d'' 1 2 (on_disk frame_named_directory) of
        Inl z \<Rightarrow> False
      | Inr s' \<Rightarrow> (''d/a.5_tmp_22-02-05_10-00-00.png'', ''d/a.01.png'', True) \<in> set (trace s'))
   \<and> no_suffix no_faults (dir_entries dashed_frame ''d'')
   \<and> (case renumber_files no_faults ''d'' (- 1) 2 (on_disk dashed_frame) of
        Inl z \<Rightarrow> False
      | Inr s' \<Rightarrow> (''d/a.5_tmp_22-02-05_10-00-00.png'', ''d/a.-1.png'', True) \<in> set (trace s')
                 \<and> fs s' = [(''d/a.-1.png'', RegFile 5), (''d'', Directory)])
   \<and> no_suffix (fail_at ''d/a.3.png'') (dir_entries two_frames_down ''d'')
   \<and> (case renumber_files (fail_at ''d/a.3.png'') ''d'' 2 1 (on_disk two_frames_down) of
        Inl z \<Rightarrow> (''d/a.2_tmp_22-02-05_10-00-00.png'', ''d/a.2.png'', True) \<in> set (trace (snd z))
                 \<and> fs (snd z) = [(''d/a.2.png'', RegFile 2), (''d'', Directory)]
      | Inr s' \<Rightarrow> False)"
  by (simp add: run_defs no_suffix_def sublist_code prefix_code
        frame_named_directory_def dashed_frame_def two_frames_down_def)

text \<open>
  C10, amended. Let the listing of the directory be read and no name of it embed the
  temporary suffix of the run, let the start number be non-negative, and let every entry
  of the listing that is named like a sequence file be a regular file. Then the renames of
  a run are those of the two phases followed by those of the rollback, which occur only
  after an error of the phases; no rename of the first or the second phase has a
  destination that exists when it is called, and the destinations of these renames are
  pairwise distinct. Nothing is said of the renames of the rollback.
\<close>

theorem C10_no_phase_rename_onto_an_existing_path:
  assumes wf: "distinct (map fst (fs s))"
    and listed: "os_listdir e (fs s) path = Inr files"
    and nosuf: "no_suffix e files"
    and start: "0 \<le> start"
    and reg: "\<forall>entry \<in> set files.
                seq_parts entry \<noteq> None \<longrightarrow> os_path_isfile (fs s) (path @ ''/'' @ entry)"
  shows "\<exists>calls rollback.
           trace (state_of (try_block e path start len files
                              (s\<lparr>renaming_dict := [], seqs_data_dict := []\<rparr>)))
             = trace s @ calls
           \<and> trace (state_of (renumber_files e path start len s)) = trace s @ calls @ rollback
           \<and> (rollback \<noteq> [] \<longrightarrow>
                (\<exists>z. try_block e path start len files
                        (s\<lparr>renaming_dict := [], seqs_data_dict := []\<rparr>) = Inl z))
           \<and> list_all (\<lambda>c. \<not> snd (snd c)) calls
           \<and> distinct (map (\<lambda>c. fst (snd c)) calls)"
proof -
  let ?s0 = "s\<lparr>renaming_dict := [], seqs_data_dict := []\<rparr>"
  from listed have files: "files = dir_entries (fs s) path" by (simp add: os_listdir_Inr)
  from phase_calls [OF wf nosuf [unfolded files] start reg [unfolded files], of len]
  obtain calls where c: "trace (state_of (try_block e path start len files ?s0)) = trace s @ calls"
    and clean: "list_all (\<lambda>c. \<not> snd (snd c)) calls"
    and dist: "distinct (map (\<lambda>c. fst (snd c)) calls)"
    unfolding files by blast
  note rf = renumber_files_listed [OF listed, of start len]
  have "\<exists>rollback. trace (state_of (renumber_files e path start len s)) = trace s @ calls @ rollback
          \<and> (rollback \<noteq> [] \<longrightarrow> (\<exists>z. try_block e path start len files ?s0 = Inl z))"
  proof (cases "files = []")
    case True
    with c have "calls = []" by (simp add: try_block_def)
    with True show ?thesis by (simp add: rf logger_warning_def)
  next
    case False
    show ?thesis
    proof (cases "try_block e path start len files ?s0")
      case (Inr s1)
      with c False have "trace (state_of (renumber_files e path start len s)) = trace s @ calls @ []"
        by (simp add: rf)
      then show ?thesis by blast
    next
      case (Inl z)
      obtain x sf where z: "z = (x, sf)" by (cases z)
      from Inl z c have sf: "trace sf = trace s @ calls" by simp
      from restore_trace [of e "renaming_dict sf" "sf\<lparr>logs := logs s @ handler_logs path x\<rparr>"]
      obtain t where "trace (state_of (restore_original_names e (renaming_dict sf)
                         (sf\<lparr>logs := logs s @ handler_logs path x\<rparr>))) = trace sf @ t" by auto
      with sf have "trace (state_of (renumber_files e path start len s)) = trace s @ calls @ t"
        unfolding renumber_files_caught [OF listed Inl [unfolded z]] by simp
      with Inl show ?thesis by blast
    qed
  qed
  with c clean dist show ?thesis by blast
qed

theorem C10_no_phase_rename_onto_an_existing_path_witness:
  "map fst (trace (state_of (renumber_files no_faults ''d'' 1 2 (on_disk equal_values))))
     = [''d/a.1.png'', ''d/a.01.png'', ''d/a.1_tmp_22-02-05_10-00-00.png'',
        ''d/a.01_tmp_22-02-05_10-00-00.png'']
   \<and> list_all (\<lambda>c. \<not> snd (snd c))
        (trace (state_of (renumber_files no_faults ''d'' 1 2 (on_disk equal_values))))
   \<and> distinct (map (\<lambda>c. fst (snd c))
        (trace (state_of (renumber_files no_faults ''d'' 1 2 (on_disk equal_values)))))"
proof -
  let ?s = "on_disk equal_values"
  have wf: "distinct (map fst (fs ?s))" by (simp add: on_disk_def equal_values_def)
  have listed: "os_listdir no_faults (fs ?s) ''d'' = Inr [''a.1.png'', ''a.01.png'']"
    by (simp add: run_defs equal_values_def)
  have nosuf: "no_suffix no_faults [''a.1.png'', ''a.01.png'']"
    by (simp add: run_defs no_suffix_def sublist_code prefix_code)
  have reg: "\<forall>entry \<in> set [''a.1.png'', ''a.01.png''].
               seq_parts entry \<noteq> None \<longrightarrow> os_path_isfile (fs ?s) (''d'' @ ''/'' @ entry)"
    by (simp add: run_defs equal_values_def)
  have start: "(0::int) \<le> 1" by simp
  have ok: "\<exists>s1. try_block no_faults ''d'' 1 2 [''a.1.png'', ''a.01.png'']
                    (?s\<lparr>renaming_dict := [], seqs_data_dict := []\<rparr>) = Inr s1"
    by (simp add: run_defs equal_values_def)
  have srcs: "map fst (trace (state_of (renumber_files no_faults ''d'' 1 2 ?s)))
     = [''d/a.1.png'', ''d/a.01.png'', ''d/a.1_tmp_22-02-05_10-00-00.png'',
        ''d/a.01_tmp_22-02-05_10-00-00.png'']"
    by (simp add: run_defs equal_values_def state_of_def)
  from C10_no_phase_rename_onto_an_existing_path [OF wf listed nosuf start reg, of 2]
  obtain calls rollback where
    t: "trace (state_of (renumber_files no_faults ''d'' 1 2 ?s)) = trace ?s @ calls @ rollback"
    and r: "rollback \<noteq> [] \<longrightarrow>
              (\<exists>z. try_block no_faults ''d'' 1 2 [''a.1.png'', ''a.01.png'']
                      (?s\<lparr>renaming_dict := [], seqs_data_dict := []\<rparr>) = Inl z)"
    and c: "list_all (\<lambda>c. \<not> snd (snd c)) calls" "distinct (map (\<lambda>c. fst (snd c)) calls)"
    by blast
  from r ok have "rollback = []" by auto
  moreover have "trace ?s = []" by (simp add: on_disk_def)
  ultimately have "trace (state_of (renumber_files no_faults ''d'' 1 2 ?s)) = calls"
    using t by simp
  with c srcs show ?thesis by simp
qed

end
